theory Spec2Isabelle
  imports Main "HOL-Library.Sublist"
begin

section \<open>Connect 4 on three columns: Minimax and Alpha-Beta\<close>

text \<open>
  A shallow embedding of \<^verbatim>\<open>src/connect4.py\<close>. Boards are Python lists of lists of
  integers. The searches are modelled on boards as values (\<open>int list list\<close>):
  \<^verbatim>\<open>create_initial_board\<close> builds six distinct row objects and \<^verbatim>\<open>make_move\<close> returns distinct
  new ones for them, so no two rows of a board of the program alias. \<^verbatim>\<open>make_move\<close> is
  modelled a second time on a store of row objects, where rows may be shared; the two
  models are proved to agree on the boards with distinct rows. Every subscript of the
  source is a branch of the model: an index out of range is \<open>Inl IndexError\<close>, a negative
  index counts from the end as in Python. The
  console output of the searches (\<^verbatim>\<open>print\<close>) is not part of their model; the last section
  adds a copy of \<^verbatim>\<open>alphabeta\<close> that returns a trace of its calls beside its value.
\<close>

subsection \<open>Errors and Python subscripts\<close>

datatype error = IndexError

definition py_index :: "nat \<Rightarrow> int \<Rightarrow> error + nat" where
  "py_index n i =
     (let j = (if i < 0 then int n + i else i)
      in if 0 \<le> j \<and> j < int n then Inr (nat j) else Inl IndexError)"

definition py_get :: "'a list \<Rightarrow> int \<Rightarrow> error + 'a" where
  "py_get xs i = (case py_index (length xs) i of Inl e \<Rightarrow> Inl e | Inr j \<Rightarrow> Inr (xs ! j))"

definition py_set :: "'a list \<Rightarrow> int \<Rightarrow> 'a \<Rightarrow> error + 'a list" where
  "py_set xs i v = (case py_index (length xs) i of Inl e \<Rightarrow> Inl e | Inr j \<Rightarrow> Inr (xs[j := v]))"

text \<open>\<^verbatim>\<open>range(n)\<close> and \<^verbatim>\<open>range(a, n)\<close> over Python integers.\<close>

definition py_range :: "int \<Rightarrow> int \<Rightarrow> int list" where
  "py_range a n = [a..n - 1]"

subsection \<open>Global configuration\<close>

definition MAX_DEPTH :: nat where "MAX_DEPTH = 3"
definition ROWS :: int where "ROWS = 6"
definition COLUMNS :: int where "COLUMNS = 7"

type_synonym board = "int list list"

text \<open>\<^verbatim>\<open>board[r][c]\<close> and \<^verbatim>\<open>board[r][c] = v\<close>.\<close>

definition cell :: "board \<Rightarrow> int \<Rightarrow> int \<Rightarrow> error + int" where
  "cell board r c = (case py_get board r of Inl e \<Rightarrow> Inl e | Inr row \<Rightarrow> py_get row c)"

definition set_cell :: "board \<Rightarrow> int \<Rightarrow> int \<Rightarrow> int \<Rightarrow> error + board" where
  "set_cell board r c v =
     (case py_get board r of Inl e \<Rightarrow> Inl e
      | Inr row \<Rightarrow> (case py_set row c v of Inl e \<Rightarrow> Inl e
                    | Inr row' \<Rightarrow> py_set board r row'))"

definition create_initial_board :: board where
  "create_initial_board =
     [[0, 0, 0, 0, 0, 0, 0],
      [0, 0, 0, 0, 0, 0, 0],
      [0, 0, 0, 0, 0, 0, 0],
      [1, 1, 1, 0, 0, 0, 0],
      [1, -1, 1, 0, 0, 0, -1],
      [-1, 1, 1, -1, 0, -1, -1]]"

subsection \<open>Win detection\<close>

text \<open>
  \<^verbatim>\<open>all(board[r][c] == player for ...)\<close> over the cells of one line: the generator stops at
  the first cell that differs, and a subscript out of range raises before that.
\<close>

fun all_player :: "board \<Rightarrow> int \<Rightarrow> (int \<times> int) list \<Rightarrow> error + bool" where
  "all_player board player [] = Inr True"
| "all_player board player ((r, c) # rest) =
     (case cell board r c of Inl e \<Rightarrow> Inl e
      | Inr x \<Rightarrow> if x = player then all_player board player rest else Inr False)"

text \<open>One pair of nested \<^verbatim>\<open>for\<close> loops: the lines in scan order, the first full line returns.\<close>

fun any_line :: "board \<Rightarrow> int \<Rightarrow> (int \<times> int) list list \<Rightarrow> error + bool" where
  "any_line board player [] = Inr False"
| "any_line board player (l # ls) =
     (case all_player board player l of Inl e \<Rightarrow> Inl e
      | Inr found \<Rightarrow> if found then Inr True else any_line board player ls)"

definition horizontal_lines :: "(int \<times> int) list list" where
  "horizontal_lines =
     concat (map (\<lambda>r. map (\<lambda>c. map (\<lambda>i. (r, c + i)) (py_range 0 4))
                          (py_range 0 (COLUMNS - 3)))
                 (py_range 0 ROWS))"

definition vertical_lines :: "(int \<times> int) list list" where
  "vertical_lines =
     concat (map (\<lambda>c. map (\<lambda>r. map (\<lambda>i. (r + i, c)) (py_range 0 4))
                          (py_range 0 (ROWS - 3)))
                 (py_range 0 COLUMNS))"

definition diagonal_down_lines :: "(int \<times> int) list list" where
  "diagonal_down_lines =
     concat (map (\<lambda>r. map (\<lambda>c. map (\<lambda>i. (r + i, c + i)) (py_range 0 4))
                          (py_range 0 (COLUMNS - 3)))
                 (py_range 0 (ROWS - 3)))"

definition diagonal_up_lines :: "(int \<times> int) list list" where
  "diagonal_up_lines =
     concat (map (\<lambda>r. map (\<lambda>c. map (\<lambda>i. (r - i, c + i)) (py_range 0 4))
                          (py_range 0 (COLUMNS - 3)))
                 (py_range 3 ROWS))"

definition check_win :: "board \<Rightarrow> int \<Rightarrow> error + bool" where
  "check_win board player =
     (case any_line board player horizontal_lines of Inl e \<Rightarrow> Inl e
      | Inr h \<Rightarrow> if h then Inr True else
     (case any_line board player vertical_lines of Inl e \<Rightarrow> Inl e
      | Inr v \<Rightarrow> if v then Inr True else
     (case any_line board player diagonal_down_lines of Inl e \<Rightarrow> Inl e
      | Inr d \<Rightarrow> if d then Inr True else
     (case any_line board player diagonal_up_lines of Inl e \<Rightarrow> Inl e
      | Inr u \<Rightarrow> if u then Inr True else Inr False))))"

subsection \<open>Move generation and move application\<close>

fun valid_loop :: "board \<Rightarrow> int list \<Rightarrow> int list \<Rightarrow> error + int list" where
  "valid_loop board [] valid = Inr valid"
| "valid_loop board (c # cols) valid =
     (case cell board 0 c of Inl e \<Rightarrow> Inl e
      | Inr x \<Rightarrow> valid_loop board cols (if x = 0 then valid @ [c] else valid))"

definition get_valid_moves :: "board \<Rightarrow> nat \<Rightarrow> error + int list" where
  "get_valid_moves board depth = valid_loop board [0, 1, 2] []"

text \<open>
  The loop of \<^verbatim>\<open>make_move\<close> over \<^verbatim>\<open>reversed(range(ROWS))\<close>: the first empty cell met is
  written and the loop breaks; when the rows run out the copy is returned as it is.
\<close>

fun drop_loop :: "board \<Rightarrow> int list \<Rightarrow> int \<Rightarrow> int \<Rightarrow> error + board" where
  "drop_loop new_board [] col player = Inr new_board"
| "drop_loop new_board (r # rs) col player =
     (case cell new_board r col of Inl e \<Rightarrow> Inl e
      | Inr x \<Rightarrow> if x = 0 then set_cell new_board r col player
                else drop_loop new_board rs col player)"

definition make_move :: "board \<Rightarrow> int \<Rightarrow> int \<Rightarrow> error + board" where
  "make_move board col player = drop_loop board (rev (py_range 0 ROWS)) col player"

text \<open>
  \<^verbatim>\<open>make_move\<close> once more, on a store of row objects. A board object is the list of the
  addresses of its rows, and the store holds the row at each address; two entries of a
  board may hold the same address, as in \<^verbatim>\<open>[[0] * 7] * 6\<close>. \<^verbatim>\<open>copy.deepcopy\<close> keeps a memo of
  the objects it has copied: a row met again is not copied again, the copy made before is
  used, so rows shared in the argument are shared in the copy. The integers in a row are
  immutable and are copied by value. The loop then writes into the row object that
  \<^verbatim>\<open>new_board[r]\<close> refers to. The outer list of the argument is never written and the outer
  list of the copy is written nowhere, so they are kept as values.
\<close>

type_synonym ref = nat
type_synonym store = "int list list"

fun deepcopy_loop :: "store \<Rightarrow> (ref \<times> ref) list \<Rightarrow> ref list \<Rightarrow> ref list \<Rightarrow> store \<times> ref list" where
  "deepcopy_loop st memo [] y = (st, y)"
| "deepcopy_loop st memo (a # rest) y =
     (case map_of memo a of
        Some a' \<Rightarrow> deepcopy_loop st memo rest (y @ [a'])
      | None \<Rightarrow> deepcopy_loop (st @ [st ! a]) ((a, length st) # memo) rest (y @ [length st]))"

definition deepcopy :: "store \<Rightarrow> ref list \<Rightarrow> store \<times> ref list" where
  "deepcopy st board = deepcopy_loop st [] board []"

fun drop_loop_store :: "store \<Rightarrow> ref list \<Rightarrow> int list \<Rightarrow> int \<Rightarrow> int \<Rightarrow> error + store" where
  "drop_loop_store st new_board [] col player = Inr st"
| "drop_loop_store st new_board (r # rs) col player =
     (case py_get new_board r of Inl e \<Rightarrow> Inl e
      | Inr a \<Rightarrow>
          (case py_get (st ! a) col of Inl e \<Rightarrow> Inl e
           | Inr x \<Rightarrow>
               if x = 0 then
                 (case py_set (st ! a) col player of Inl e \<Rightarrow> Inl e
                  | Inr row' \<Rightarrow> Inr (st[a := row']))
               else drop_loop_store st new_board rs col player))"

definition make_move_store :: "store \<Rightarrow> ref list \<Rightarrow> int \<Rightarrow> int \<Rightarrow> error + store \<times> ref list" where
  "make_move_store st board col player =
     (case deepcopy st board of
        (st', new_board) \<Rightarrow>
          (case drop_loop_store st' new_board (rev (py_range 0 ROWS)) col player of
             Inl e \<Rightarrow> Inl e
           | Inr st'' \<Rightarrow> Inr (st'', new_board)))"

text \<open>The cells that a board object shows in a store.\<close>

definition read_board :: "store \<Rightarrow> ref list \<Rightarrow> board" where
  "read_board st board = map (\<lambda>a. st ! a) board"

subsection \<open>Evaluation\<close>

definition evaluate :: "board \<Rightarrow> error + int" where
  "evaluate board =
     (case check_win board 1 of Inl e \<Rightarrow> Inl e
      | Inr w \<Rightarrow> if w then Inr 100 else
     (case check_win board (- 1) of Inl e \<Rightarrow> Inl e
      | Inr l \<Rightarrow> if l then Inr (- 100) else Inr 0))"

subsection \<open>Scores\<close>

text \<open>
  The values the searches compare: the integers of \<^verbatim>\<open>evaluate\<close> and the two start values
  \<^verbatim>\<open>float("-inf")\<close> and \<^verbatim>\<open>float("inf")\<close>, in Python's order.
\<close>

datatype score = NegInf | Fin int | PosInf

fun score_le :: "score \<Rightarrow> score \<Rightarrow> bool" where
  "score_le NegInf y = True"
| "score_le (Fin a) NegInf = False"
| "score_le (Fin a) (Fin b) = (a \<le> b)"
| "score_le (Fin a) PosInf = True"
| "score_le PosInf PosInf = True"
| "score_le PosInf y = False"

instantiation score :: linorder
begin

definition less_eq_score :: "score \<Rightarrow> score \<Rightarrow> bool" where
  "less_eq_score x y = score_le x y"

definition less_score :: "score \<Rightarrow> score \<Rightarrow> bool" where
  "less_score x y = (score_le x y \<and> \<not> score_le y x)"

instance
proof
  fix x y z :: score
  show "(x < y) = (x \<le> y \<and> \<not> y \<le> x)"
    by (simp add: less_score_def less_eq_score_def)
  show "x \<le> x"
    by (cases x) (simp_all add: less_eq_score_def)
  show "x \<le> y \<Longrightarrow> y \<le> z \<Longrightarrow> x \<le> z"
    by (cases x; cases y; cases z) (simp_all add: less_eq_score_def)
  show "x \<le> y \<Longrightarrow> y \<le> x \<Longrightarrow> x = y"
    by (cases x; cases y) (simp_all add: less_eq_score_def)
  show "x \<le> y \<or> y \<le> x"
    by (cases x; cases y) (auto simp: less_eq_score_def)
qed

end

subsection \<open>Well-formed boards and the measure of the searches\<close>

text \<open>
  A well-formed board has \<^verbatim>\<open>ROWS\<close> rows of \<^verbatim>\<open>COLUMNS\<close> cells. Every move that
  \<^verbatim>\<open>get_valid_moves\<close> returns fills an empty cell, on any board, so the number of empty
  cells bounds the recursion of the searches.
\<close>

definition wf_board :: "board \<Rightarrow> bool" where
  "wf_board board = (int (length board) = ROWS \<and> (\<forall>row \<in> set board. int (length row) = COLUMNS))"

definition empty_cells :: "board \<Rightarrow> nat" where
  "empty_cells board = length (filter (\<lambda>x. x = 0) (concat board))"

lemma py_index_Inr: "py_index n i = Inr j \<Longrightarrow> j < n"
  by (auto simp: py_index_def Let_def split: if_splits)

lemma zeros_update:
  "j < length row \<Longrightarrow> row ! j = 0 \<Longrightarrow> p \<noteq> 0 \<Longrightarrow>
   Suc (length (filter (\<lambda>x. x = 0) (row[j := p]))) = length (filter (\<lambda>x. x = (0::int)) row)"
proof (induction row arbitrary: j)
  case Nil
  then show ?case by simp
next
  case (Cons a row)
  then show ?case by (cases j) auto
qed

lemma empty_cells_update:
  "i < length b \<Longrightarrow> j < length (b ! i) \<Longrightarrow> b ! i ! j = 0 \<Longrightarrow> p \<noteq> 0 \<Longrightarrow>
   Suc (empty_cells (b[i := (b ! i)[j := p]])) = empty_cells b"
proof (induction b arbitrary: i)
  case Nil
  then show ?case by simp
next
  case (Cons row b)
  show ?case
  proof (cases i)
    case 0
    with Cons.prems zeros_update [of j row p] show ?thesis
      by (simp add: empty_cells_def)
  next
    case (Suc k)
    with Cons.prems Cons.IH [of k] show ?thesis
      by (simp add: empty_cells_def)
  qed
qed

lemma set_cell_empty_cells:
  assumes "cell b r c = Inr 0" "set_cell b r c p = Inr b'" "p \<noteq> 0"
  shows "empty_cells b' < empty_cells b"
proof -
  from assms(1) obtain i j where i: "py_index (length b) r = Inr i"
    and j: "py_index (length (b ! i)) c = Inr j" and z: "b ! i ! j = 0"
    by (auto simp: cell_def py_get_def split: sum.splits)
  from assms(2) i j have "b' = b[i := (b ! i)[j := p]]"
    by (auto simp: set_cell_def py_get_def py_set_def split: sum.splits)
  with empty_cells_update [of i b j p] py_index_Inr [OF i] py_index_Inr [OF j] z assms(3)
  show ?thesis by simp
qed

lemma drop_loop_cases:
  "drop_loop b rs col p = Inr b' \<Longrightarrow>
   (b' = b \<and> (\<forall>r \<in> set rs. \<exists>x. cell b r col = Inr x \<and> x \<noteq> 0)) \<or>
   (\<exists>r \<in> set rs. cell b r col = Inr 0 \<and> set_cell b r col p = Inr b')"
  by (induction rs) (auto split: sum.splits if_splits)

lemma make_move_empty_cells:
  assumes "make_move b col p = Inr b'" "cell b 0 col = Inr 0" "p \<noteq> 0"
  shows "empty_cells b' < empty_cells b"
proof -
  have "0 \<in> set (rev (py_range 0 ROWS))"
    by (simp add: py_range_def ROWS_def)
  with drop_loop_cases [OF assms(1) [unfolded make_move_def]] assms(2)
  obtain r where "cell b r col = Inr 0" "set_cell b r col p = Inr b'"
    by fastforce
  then show ?thesis using assms(3) by (rule set_cell_empty_cells)
qed

lemma valid_loop_filter:
  "valid_loop b cs acc = Inr ms \<Longrightarrow> ms = acc @ filter (\<lambda>c. cell b 0 c = Inr 0) cs"
proof (induction cs arbitrary: acc)
  case Nil
  then show ?case by simp
next
  case (Cons c cs)
  from Cons.prems obtain x where x: "cell b 0 c = Inr x"
    and rest: "valid_loop b cs (if x = 0 then acc @ [c] else acc) = Inr ms"
    by (auto split: sum.splits)
  from Cons.IH [OF rest] x show ?case
    by (cases "x = 0") simp_all
qed

lemma get_valid_moves_empty_top:
  "get_valid_moves b d = Inr ms \<Longrightarrow> m \<in> set ms \<Longrightarrow> cell b 0 m = Inr 0"
  using valid_loop_filter [of b "[0, 1, 2]" "[]" ms]
  by (auto simp: get_valid_moves_def split: if_splits)

subsection \<open>Minimax\<close>

text \<open>
  The \<^verbatim>\<open>for m in moves\<close> loops are recursions over the list of moves; their first argument
  is the recursive call on the child that move \<open>m\<close> leads to.
\<close>

fun max_loop :: "(int \<Rightarrow> error + score) \<Rightarrow> int list \<Rightarrow> score \<Rightarrow> error + score" where
  "max_loop child [] best_val = Inr best_val"
| "max_loop child (m # moves) best_val =
     (case child m of Inl e \<Rightarrow> Inl e
      | Inr val \<Rightarrow> max_loop child moves (if val > best_val then val else best_val))"

fun min_loop :: "(int \<Rightarrow> error + score) \<Rightarrow> int list \<Rightarrow> score \<Rightarrow> error + score" where
  "min_loop child [] best_val = Inr best_val"
| "min_loop child (m # moves) best_val =
     (case child m of Inl e \<Rightarrow> Inl e
      | Inr val \<Rightarrow> min_loop child moves (if val < best_val then val else best_val))"

lemma max_loop_cong [fundef_cong]:
  "moves = moves' \<Longrightarrow> best = best' \<Longrightarrow> (\<And>m. m \<in> set moves' \<Longrightarrow> f m = g m) \<Longrightarrow>
   max_loop f moves best = max_loop g moves' best'"
  by (induction moves' arbitrary: moves best best') (auto split: sum.splits)

lemma min_loop_cong [fundef_cong]:
  "moves = moves' \<Longrightarrow> best = best' \<Longrightarrow> (\<And>m. m \<in> set moves' \<Longrightarrow> f m = g m) \<Longrightarrow>
   min_loop f moves best = min_loop g moves' best'"
  by (induction moves' arbitrary: moves best best') (auto split: sum.splits)

function minimax :: "board \<Rightarrow> nat \<Rightarrow> int list \<Rightarrow> error + score" where
  "minimax board depth path =
     (case evaluate board of Inl e \<Rightarrow> Inl e
      | Inr score_win \<Rightarrow>
          if depth = MAX_DEPTH \<or> score_win \<noteq> 0 then Inr (Fin score_win)
          else if depth mod 2 = 0 then
            (case get_valid_moves board depth of Inl e \<Rightarrow> Inl e
             | Inr moves \<Rightarrow>
                 max_loop (\<lambda>m. case make_move board m 1 of Inl e \<Rightarrow> Inl e
                                | Inr child \<Rightarrow> minimax child (depth + 1) (path @ [m]))
                          moves NegInf)
          else
            (case get_valid_moves board depth of Inl e \<Rightarrow> Inl e
             | Inr moves \<Rightarrow>
                 min_loop (\<lambda>m. case make_move board m (- 1) of Inl e \<Rightarrow> Inl e
                                | Inr child \<Rightarrow> minimax child (depth + 1) (path @ [m]))
                          moves PosInf))"
  by pat_completeness auto
termination
  by (relation "measure (\<lambda>(board, depth, path). empty_cells board)")
     (auto dest: get_valid_moves_empty_top intro: make_move_empty_cells)


subsection \<open>Alpha-Beta\<close>

text \<open>The loops carry the running value and the window; \<^verbatim>\<open>break\<close> returns the running value.\<close>

fun ab_max_loop ::
  "(int \<Rightarrow> score \<Rightarrow> score \<Rightarrow> error + score) \<Rightarrow> int list \<Rightarrow> score \<Rightarrow> score \<Rightarrow> score \<Rightarrow> error + score" where
  "ab_max_loop child [] value alpha beta = Inr value"
| "ab_max_loop child (m # moves) value alpha beta =
     (case child m alpha beta of Inl e \<Rightarrow> Inl e
      | Inr val \<Rightarrow>
          let value = (if val > value then val else value);
              alpha = (if value > alpha then value else alpha)
          in if alpha \<ge> beta then Inr value
             else ab_max_loop child moves value alpha beta)"

fun ab_min_loop ::
  "(int \<Rightarrow> score \<Rightarrow> score \<Rightarrow> error + score) \<Rightarrow> int list \<Rightarrow> score \<Rightarrow> score \<Rightarrow> score \<Rightarrow> error + score" where
  "ab_min_loop child [] value alpha beta = Inr value"
| "ab_min_loop child (m # moves) value alpha beta =
     (case child m alpha beta of Inl e \<Rightarrow> Inl e
      | Inr val \<Rightarrow>
          let value = (if val < value then val else value);
              beta = (if value < beta then value else beta)
          in if alpha \<ge> beta then Inr value
             else ab_min_loop child moves value alpha beta)"

lemma ab_max_loop_cong [fundef_cong]:
  "moves = moves' \<Longrightarrow> v = v' \<Longrightarrow> a = a' \<Longrightarrow> b = b' \<Longrightarrow>
   (\<And>m x y. m \<in> set moves' \<Longrightarrow> f m x y = g m x y) \<Longrightarrow>
   ab_max_loop f moves v a b = ab_max_loop g moves' v' a' b'"
  by (induction moves' arbitrary: moves v v' a a') (auto split: sum.splits simp: Let_def)

lemma ab_min_loop_cong [fundef_cong]:
  "moves = moves' \<Longrightarrow> v = v' \<Longrightarrow> a = a' \<Longrightarrow> b = b' \<Longrightarrow>
   (\<And>m x y. m \<in> set moves' \<Longrightarrow> f m x y = g m x y) \<Longrightarrow>
   ab_min_loop f moves v a b = ab_min_loop g moves' v' a' b'"
  by (induction moves' arbitrary: moves v v' b b') (auto split: sum.splits simp: Let_def)

function alphabeta :: "board \<Rightarrow> nat \<Rightarrow> int list \<Rightarrow> score \<Rightarrow> score \<Rightarrow> error + score" where
  "alphabeta board depth path alpha beta =
     (case evaluate board of Inl e \<Rightarrow> Inl e
      | Inr score_win \<Rightarrow>
          if depth = MAX_DEPTH \<or> score_win \<noteq> 0 then Inr (Fin score_win)
          else if depth mod 2 = 0 then
            (case get_valid_moves board depth of Inl e \<Rightarrow> Inl e
             | Inr moves \<Rightarrow>
                 ab_max_loop (\<lambda>m alpha beta. case make_move board m 1 of Inl e \<Rightarrow> Inl e
                                | Inr child \<Rightarrow> alphabeta child (depth + 1) (path @ [m]) alpha beta)
                          moves NegInf alpha beta)
          else
            (case get_valid_moves board depth of Inl e \<Rightarrow> Inl e
             | Inr moves \<Rightarrow>
                 ab_min_loop (\<lambda>m alpha beta. case make_move board m (- 1) of Inl e \<Rightarrow> Inl e
                                | Inr child \<Rightarrow> alphabeta child (depth + 1) (path @ [m]) alpha beta)
                          moves PosInf alpha beta))"
  by pat_completeness auto
termination
  by (relation "measure (\<lambda>(board, depth, path, alpha, beta). empty_cells board)")
     (auto dest: get_valid_moves_empty_top intro: make_move_empty_cells)

subsection \<open>The collecting searches\<close>

text \<open>
  The \<^verbatim>\<open>state\<close> of a record is \<^verbatim>\<open>"Root"\<close> or the moves of the path joined by \<^verbatim>\<open>"-"\<close>. A record
  is a Python dictionary; the keys that only some records have are optional fields.
\<close>

function str_nat :: "nat \<Rightarrow> string" where
  "str_nat n =
     (if n < 10 then [char_of (48 + n)]
      else str_nat (n div 10) @ [char_of (48 + n mod 10)])"
  by pat_completeness auto
termination
  by (relation "measure (\<lambda>n. n)") auto

definition str_int :: "int \<Rightarrow> string" where
  "str_int i = (if i < 0 then CHR ''-'' # str_nat (nat (- i)) else str_nat (nat i))"

fun join :: "string \<Rightarrow> string list \<Rightarrow> string" where
  "join sep [] = []"
| "join sep [x] = x"
| "join sep (x # y # ys) = x @ sep @ join sep (y # ys)"

definition node_state :: "nat \<Rightarrow> int list \<Rightarrow> string" where
  "node_state depth path = (if depth = 0 then ''Root'' else join ''-'' (map str_int path))"

datatype node_type = TerminalNode | MaxNode | MinNode

record node =
  n_path :: "int list"
  n_state :: string
  n_value :: score
  n_type :: node_type
  n_depth :: nat
  n_children_values :: "score list option"
  n_moves :: "int list option"
  n_explored_moves :: "int list option"
  n_pruned :: "bool option"
  n_alpha :: "score option"
  n_beta :: "score option"

fun collect_max_loop ::
  "(int \<Rightarrow> error + node list \<times> score) \<Rightarrow> int list \<Rightarrow> node list \<Rightarrow> score \<Rightarrow> score list \<Rightarrow>
   error + node list \<times> score \<times> score list" where
  "collect_max_loop child [] nodes best_val children_vals = Inr (nodes, best_val, children_vals)"
| "collect_max_loop child (m # moves) nodes best_val children_vals =
     (case child m of Inl e \<Rightarrow> Inl e
      | Inr (child_nodes, val) \<Rightarrow>
          collect_max_loop child moves (nodes @ child_nodes)
            (if val > best_val then val else best_val) (children_vals @ [val]))"

fun collect_min_loop ::
  "(int \<Rightarrow> error + node list \<times> score) \<Rightarrow> int list \<Rightarrow> node list \<Rightarrow> score \<Rightarrow> score list \<Rightarrow>
   error + node list \<times> score \<times> score list" where
  "collect_min_loop child [] nodes best_val children_vals = Inr (nodes, best_val, children_vals)"
| "collect_min_loop child (m # moves) nodes best_val children_vals =
     (case child m of Inl e \<Rightarrow> Inl e
      | Inr (child_nodes, val) \<Rightarrow>
          collect_min_loop child moves (nodes @ child_nodes)
            (if val < best_val then val else best_val) (children_vals @ [val]))"

lemma collect_max_loop_cong [fundef_cong]:
  "moves = moves' \<Longrightarrow> ns = ns' \<Longrightarrow> best = best' \<Longrightarrow> cvs = cvs' \<Longrightarrow>
   (\<And>m. m \<in> set moves' \<Longrightarrow> f m = g m) \<Longrightarrow>
   collect_max_loop f moves ns best cvs = collect_max_loop g moves' ns' best' cvs'"
  by (induction moves' arbitrary: moves ns ns' best best' cvs cvs') (auto split: sum.splits)

lemma collect_min_loop_cong [fundef_cong]:
  "moves = moves' \<Longrightarrow> ns = ns' \<Longrightarrow> best = best' \<Longrightarrow> cvs = cvs' \<Longrightarrow>
   (\<And>m. m \<in> set moves' \<Longrightarrow> f m = g m) \<Longrightarrow>
   collect_min_loop f moves ns best cvs = collect_min_loop g moves' ns' best' cvs'"
  by (induction moves' arbitrary: moves ns ns' best best' cvs cvs') (auto split: sum.splits)

function collect_tree_nodes ::
  "board \<Rightarrow> nat \<Rightarrow> int list \<Rightarrow> string \<Rightarrow> error + node list \<times> score" where
  "collect_tree_nodes board depth path node_type =
     (let nodes = []; state = node_state depth path in
      case evaluate board of Inl e \<Rightarrow> Inl e
      | Inr score_win \<Rightarrow>
          if depth = MAX_DEPTH \<or> score_win \<noteq> 0 then
            Inr (nodes @
                 [\<lparr>n_path = path, n_state = state, n_value = Fin score_win,
                   n_type = TerminalNode, n_depth = depth, n_children_values = None,
                   n_moves = None, n_explored_moves = None, n_pruned = None,
                   n_alpha = None, n_beta = None\<rparr>],
                 Fin score_win)
          else if depth mod 2 = 0 then
            (case get_valid_moves board depth of Inl e \<Rightarrow> Inl e
             | Inr moves \<Rightarrow>
                (case collect_max_loop
                        (\<lambda>m. case make_move board m 1 of Inl e \<Rightarrow> Inl e
                              | Inr child \<Rightarrow>
                                  collect_tree_nodes child (depth + 1) (path @ [m]) node_type)
                        moves nodes NegInf [] of
                   Inl e \<Rightarrow> Inl e
                 | Inr (nodes, best_val, children_vals) \<Rightarrow>
                     Inr (nodes @
                          [\<lparr>n_path = path, n_state = state, n_value = best_val,
                            n_type = MaxNode, n_depth = depth,
                            n_children_values = Some children_vals, n_moves = Some moves,
                            n_explored_moves = None, n_pruned = None,
                            n_alpha = None, n_beta = None\<rparr>],
                          best_val)))
          else
            (case get_valid_moves board depth of Inl e \<Rightarrow> Inl e
             | Inr moves \<Rightarrow>
                (case collect_min_loop
                        (\<lambda>m. case make_move board m (- 1) of Inl e \<Rightarrow> Inl e
                              | Inr child \<Rightarrow>
                                  collect_tree_nodes child (depth + 1) (path @ [m]) node_type)
                        moves nodes PosInf [] of
                   Inl e \<Rightarrow> Inl e
                 | Inr (nodes, best_val, children_vals) \<Rightarrow>
                     Inr (nodes @
                          [\<lparr>n_path = path, n_state = state, n_value = best_val,
                            n_type = MinNode, n_depth = depth,
                            n_children_values = Some children_vals, n_moves = Some moves,
                            n_explored_moves = None, n_pruned = None,
                            n_alpha = None, n_beta = None\<rparr>],
                          best_val))))"
  by pat_completeness auto
termination
  by (relation "measure (\<lambda>(board, depth, path, node_type). empty_cells board)")
     (auto dest: get_valid_moves_empty_top intro: make_move_empty_cells)

text \<open>The loop state of the collecting Alpha-Beta search, in the order the source names it.\<close>

type_synonym ab_loop_state =
  "node list \<times> score \<times> score list \<times> int list \<times> bool \<times> score \<times> score"

fun collect_ab_max_loop ::
  "(int \<Rightarrow> score \<Rightarrow> score \<Rightarrow> error + node list \<times> score) \<Rightarrow> int list \<Rightarrow>
   node list \<Rightarrow> score \<Rightarrow> score list \<Rightarrow> int list \<Rightarrow> bool \<Rightarrow> score \<Rightarrow> score \<Rightarrow>
   error + ab_loop_state" where
  "collect_ab_max_loop child [] nodes value children_vals explored_moves pruned alpha beta =
     Inr (nodes, value, children_vals, explored_moves, pruned, alpha, beta)"
| "collect_ab_max_loop child (m # moves) nodes value children_vals explored_moves pruned alpha beta =
     (case child m alpha beta of Inl e \<Rightarrow> Inl e
      | Inr (child_nodes, val) \<Rightarrow>
          let nodes = nodes @ child_nodes;
              children_vals = children_vals @ [val];
              explored_moves = explored_moves @ [m];
              value = (if val > value then val else value);
              alpha = (if value > alpha then value else alpha)
          in if alpha \<ge> beta
             then Inr (nodes, value, children_vals, explored_moves, True, alpha, beta)
             else collect_ab_max_loop child moves nodes value children_vals explored_moves
                    pruned alpha beta)"

fun collect_ab_min_loop ::
  "(int \<Rightarrow> score \<Rightarrow> score \<Rightarrow> error + node list \<times> score) \<Rightarrow> int list \<Rightarrow>
   node list \<Rightarrow> score \<Rightarrow> score list \<Rightarrow> int list \<Rightarrow> bool \<Rightarrow> score \<Rightarrow> score \<Rightarrow>
   error + ab_loop_state" where
  "collect_ab_min_loop child [] nodes value children_vals explored_moves pruned alpha beta =
     Inr (nodes, value, children_vals, explored_moves, pruned, alpha, beta)"
| "collect_ab_min_loop child (m # moves) nodes value children_vals explored_moves pruned alpha beta =
     (case child m alpha beta of Inl e \<Rightarrow> Inl e
      | Inr (child_nodes, val) \<Rightarrow>
          let nodes = nodes @ child_nodes;
              children_vals = children_vals @ [val];
              explored_moves = explored_moves @ [m];
              value = (if val < value then val else value);
              beta = (if value < beta then value else beta)
          in if alpha \<ge> beta
             then Inr (nodes, value, children_vals, explored_moves, True, alpha, beta)
             else collect_ab_min_loop child moves nodes value children_vals explored_moves
                    pruned alpha beta)"

lemma collect_ab_max_loop_cong [fundef_cong]:
  "moves = moves' \<Longrightarrow> ns = ns' \<Longrightarrow> v = v' \<Longrightarrow> cvs = cvs' \<Longrightarrow> ex = ex' \<Longrightarrow> pr = pr' \<Longrightarrow>
   a = a' \<Longrightarrow> b = b' \<Longrightarrow> (\<And>m x y. m \<in> set moves' \<Longrightarrow> f m x y = g m x y) \<Longrightarrow>
   collect_ab_max_loop f moves ns v cvs ex pr a b =
   collect_ab_max_loop g moves' ns' v' cvs' ex' pr' a' b'"
  by (induction moves' arbitrary: moves ns ns' v v' cvs cvs' ex ex' a a')
     (auto split: sum.splits simp: Let_def)

lemma collect_ab_min_loop_cong [fundef_cong]:
  "moves = moves' \<Longrightarrow> ns = ns' \<Longrightarrow> v = v' \<Longrightarrow> cvs = cvs' \<Longrightarrow> ex = ex' \<Longrightarrow> pr = pr' \<Longrightarrow>
   a = a' \<Longrightarrow> b = b' \<Longrightarrow> (\<And>m x y. m \<in> set moves' \<Longrightarrow> f m x y = g m x y) \<Longrightarrow>
   collect_ab_min_loop f moves ns v cvs ex pr a b =
   collect_ab_min_loop g moves' ns' v' cvs' ex' pr' a' b'"
  by (induction moves' arbitrary: moves ns ns' v v' cvs cvs' ex ex' b b')
     (auto split: sum.splits simp: Let_def)

function collect_alphabeta_tree_nodes ::
  "board \<Rightarrow> nat \<Rightarrow> int list \<Rightarrow> score \<Rightarrow> score \<Rightarrow> error + node list \<times> score" where
  "collect_alphabeta_tree_nodes board depth path alpha beta =
     (let nodes = []; state = node_state depth path in
      case evaluate board of Inl e \<Rightarrow> Inl e
      | Inr score_win \<Rightarrow>
          if depth = MAX_DEPTH \<or> score_win \<noteq> 0 then
            Inr (nodes @
                 [\<lparr>n_path = path, n_state = state, n_value = Fin score_win,
                   n_type = TerminalNode, n_depth = depth, n_children_values = None,
                   n_moves = None, n_explored_moves = None, n_pruned = None,
                   n_alpha = Some alpha, n_beta = Some beta\<rparr>],
                 Fin score_win)
          else if depth mod 2 = 0 then
            (case get_valid_moves board depth of Inl e \<Rightarrow> Inl e
             | Inr moves \<Rightarrow>
                (case collect_ab_max_loop
                        (\<lambda>m alpha beta. case make_move board m 1 of Inl e \<Rightarrow> Inl e
                              | Inr child \<Rightarrow>
                                  collect_alphabeta_tree_nodes child (depth + 1) (path @ [m])
                                    alpha beta)
                        moves nodes NegInf [] [] False alpha beta of
                   Inl e \<Rightarrow> Inl e
                 | Inr (nodes, value, children_vals, explored_moves, pruned, alpha, beta) \<Rightarrow>
                     Inr (nodes @
                          [\<lparr>n_path = path, n_state = state, n_value = value,
                            n_type = MaxNode, n_depth = depth,
                            n_children_values = Some children_vals, n_moves = Some moves,
                            n_explored_moves = Some explored_moves, n_pruned = Some pruned,
                            n_alpha = Some alpha, n_beta = Some beta\<rparr>],
                          value)))
          else
            (case get_valid_moves board depth of Inl e \<Rightarrow> Inl e
             | Inr moves \<Rightarrow>
                (case collect_ab_min_loop
                        (\<lambda>m alpha beta. case make_move board m (- 1) of Inl e \<Rightarrow> Inl e
                              | Inr child \<Rightarrow>
                                  collect_alphabeta_tree_nodes child (depth + 1) (path @ [m])
                                    alpha beta)
                        moves nodes PosInf [] [] False alpha beta of
                   Inl e \<Rightarrow> Inl e
                 | Inr (nodes, value, children_vals, explored_moves, pruned, alpha, beta) \<Rightarrow>
                     Inr (nodes @
                          [\<lparr>n_path = path, n_state = state, n_value = value,
                            n_type = MinNode, n_depth = depth,
                            n_children_values = Some children_vals, n_moves = Some moves,
                            n_explored_moves = Some explored_moves, n_pruned = Some pruned,
                            n_alpha = Some alpha, n_beta = Some beta\<rparr>],
                          value))))"
  by pat_completeness auto
termination
  by (relation "measure (\<lambda>(board, depth, path, alpha, beta). empty_cells board)")
     (auto dest: get_valid_moves_empty_top intro: make_move_empty_cells)

definition terminal_count :: "node list \<Rightarrow> nat" where
  "terminal_count nodes = length (filter (\<lambda>n. n_type n = TerminalNode) nodes)"

subsection \<open>Subscripts on a well-formed board\<close>

lemma py_index_nonneg: "0 \<le> i \<Longrightarrow> i < int n \<Longrightarrow> py_index n i = Inr (nat i)"
  by (simp add: py_index_def)

lemma py_index_in_range:
  "- int n \<le> i \<Longrightarrow> i < int n \<Longrightarrow> py_index n i = Inr (nat (i mod int n))"
proof (cases "i < 0")
  case True
  assume "- int n \<le> i"
  with True have "(i + int n) mod int n = i + int n" by (intro mod_pos_pos_trivial) simp_all
  then have "i mod int n = int n + i" by simp
  with True \<open>- int n \<le> i\<close> show ?thesis by (simp add: py_index_def)
next
  case False
  assume "i < int n"
  with False show ?thesis by (simp add: py_index_def)
qed

lemma wf_board_row: "wf_board b \<Longrightarrow> r < 6 \<Longrightarrow> length (b ! r) = 7"
  by (auto simp: wf_board_def ROWS_def COLUMNS_def)

lemma wf_board_length: "wf_board b \<Longrightarrow> length b = 6"
  by (auto simp: wf_board_def ROWS_def)

lemma cell_wf:
  assumes "wf_board b" "r < 6" "- COLUMNS \<le> col" "col < COLUMNS"
  shows "cell b (int r) col = Inr (b ! r ! nat (col mod COLUMNS))"
  using assms wf_board_row [OF assms(1,2)] wf_board_length [OF assms(1)]
    py_index_in_range [of 7 col]
  by (simp add: cell_def py_get_def py_index_nonneg COLUMNS_def)

lemma set_cell_wf:
  assumes "wf_board b" "r < 6" "- COLUMNS \<le> col" "col < COLUMNS"
  shows "set_cell b (int r) col p = Inr (b[r := (b ! r)[nat (col mod COLUMNS) := p]])"
  using assms wf_board_row [OF assms(1,2)] wf_board_length [OF assms(1)]
    py_index_in_range [of 7 col]
  by (simp add: set_cell_def py_get_def py_set_def py_index_nonneg COLUMNS_def)

lemma wf_board_update:
  "wf_board b \<Longrightarrow> r < 6 \<Longrightarrow> wf_board (b[r := (b ! r)[c := p]])"
  by (auto simp: wf_board_def ROWS_def dest!: set_update_subset_insert [THEN subsetD])

lemma rows_desc: "rev (py_range 0 ROWS) = rev (map int [0..<6])"
  by (simp add: py_range_def ROWS_def upt_rec upto.simps)

lemma drop_loop_full:
  assumes "wf_board b" "- COLUMNS \<le> col" "col < COLUMNS" "n \<le> 6"
    and "\<forall>r<n. b ! r ! nat (col mod COLUMNS) \<noteq> 0"
  shows "drop_loop b (rev (map int [0..<n])) col p = Inr b"
  using assms(4,5)
proof (induction n)
  case 0
  then show ?case by simp
next
  case (Suc n)
  with cell_wf [OF assms(1) _ assms(2,3), of n] show ?case by simp
qed

lemma drop_loop_lowest:
  assumes "wf_board b" "- COLUMNS \<le> col" "col < COLUMNS" "n \<le> 6"
    and "r0 < n" "b ! r0 ! nat (col mod COLUMNS) = 0"
    and "\<forall>r. r0 < r \<and> r < n \<longrightarrow> b ! r ! nat (col mod COLUMNS) \<noteq> 0"
  shows "drop_loop b (rev (map int [0..<n])) col p =
         Inr (b[r0 := (b ! r0)[nat (col mod COLUMNS) := p]])"
  using assms(4-7)
proof (induction n)
  case 0
  then show ?case by simp
next
  case (Suc n)
  show ?case
  proof (cases "r0 = n")
    case True
    with Suc.prems cell_wf [OF assms(1) _ assms(2,3), of n]
      set_cell_wf [OF assms(1) _ assms(2,3), of n p]
    show ?thesis by simp
  next
    case False
    with Suc.prems have "r0 < n" and "b ! n ! nat (col mod COLUMNS) \<noteq> 0" by auto
    with Suc cell_wf [OF assms(1) _ assms(2,3), of n] show ?thesis by simp
  qed
qed

lemma lowest_exists:
  "\<exists>r<n::nat. P r \<Longrightarrow> \<exists>r0<n. P r0 \<and> (\<forall>r. r0 < r \<and> r < n \<longrightarrow> \<not> P r)"
proof (induction n)
  case 0
  then show ?case by simp
next
  case (Suc n)
  show ?case
  proof (cases "P n")
    case True
    then show ?thesis by (intro exI [of _ n]) auto
  next
    case False
    with Suc.prems have "\<exists>r<n. P r" by (metis less_Suc_eq)
    from Suc.IH [OF this] obtain r0 where "r0 < n" "P r0" "\<forall>r. r0 < r \<and> r < n \<longrightarrow> \<not> P r"
      by blast
    with False show ?thesis
      by (intro exI [of _ r0]) (auto simp: less_Suc_eq)
  qed
qed

lemma make_move_lowest:
  assumes "wf_board board" and "- COLUMNS \<le> col" and "col < COLUMNS"
    and "\<exists>r<6. board ! r ! nat (col mod COLUMNS) = 0"
  shows "\<exists>r0<6. board ! r0 ! nat (col mod COLUMNS) = 0 \<and>
           (\<forall>r. r0 < r \<and> r < 6 \<longrightarrow> board ! r ! nat (col mod COLUMNS) \<noteq> 0) \<and>
           (\<exists>new_board. make_move board col player = Inr new_board \<and>
              wf_board new_board \<and>
              new_board = board[r0 := (board ! r0)[nat (col mod COLUMNS) := player]] \<and>
              new_board ! r0 ! nat (col mod COLUMNS) = player \<and>
              (\<forall>r<6. \<forall>c<7. (r, c) \<noteq> (r0, nat (col mod COLUMNS)) \<longrightarrow>
                 new_board ! r ! c = board ! r ! c))"
proof -
  let ?c = "nat (col mod COLUMNS)"
  from lowest_exists [of 6 "\<lambda>r. board ! r ! ?c = 0", OF assms(4)]
  obtain r0 where r0: "r0 < 6" "board ! r0 ! ?c = 0"
    "\<forall>r. r0 < r \<and> r < 6 \<longrightarrow> board ! r ! ?c \<noteq> 0" by blast
  have c: "?c < 7" using assms(2,3) by (simp add: COLUMNS_def)
  have mv: "make_move board col player = Inr (board[r0 := (board ! r0)[?c := player]])"
    unfolding make_move_def rows_desc
    using drop_loop_lowest [OF assms(1-3) _ r0(1,2,3), of player] by simp
  have len: "length board = 6" "length (board ! r0) = 7"
    using wf_board_length [OF assms(1)] wf_board_row [OF assms(1) r0(1)] by simp_all
  have frame: "\<forall>r<6. \<forall>c<7. (r, c) \<noteq> (r0, ?c) \<longrightarrow>
      board[r0 := (board ! r0)[?c := player]] ! r ! c = board ! r ! c"
    using len r0(1) by (auto simp: nth_list_update)
  have "board[r0 := (board ! r0)[?c := player]] ! r0 ! ?c = player"
    using len r0(1) c by simp
  with r0 mv frame wf_board_update [OF assms(1) r0(1)] show ?thesis
    by (intro exI [of _ r0]) simp
qed

lemma make_move_full:
  assumes "wf_board board" and "- COLUMNS \<le> col" and "col < COLUMNS"
    and "\<forall>r<6. board ! r ! nat (col mod COLUMNS) \<noteq> 0"
  shows "make_move board col player = Inr board"
  unfolding make_move_def rows_desc
  using drop_loop_full [OF assms(1-3) _ assms(4), of player] by simp

subsection \<open>No subscript fails on a well-formed board\<close>

lemma wf_create_initial_board: "wf_board create_initial_board"
  by (simp add: wf_board_def create_initial_board_def ROWS_def COLUMNS_def)

lemma cell_wf_int:
  assumes "wf_board b" "0 \<le> r" "r < 6" "0 \<le> c" "c < 7"
  shows "\<exists>x. cell b r c = Inr x"
  using cell_wf [OF assms(1), of "nat r" c] assms(2-5) by (simp add: COLUMNS_def)

definition in_grid :: "(int \<times> int) list list \<Rightarrow> bool" where
  "in_grid ls = (\<forall>l \<in> set ls. \<forall>(r, c) \<in> set l. 0 \<le> r \<and> r < 6 \<and> 0 \<le> c \<and> c < 7)"

lemma all_player_wf:
  "wf_board b \<Longrightarrow> \<forall>(r, c) \<in> set l. 0 \<le> r \<and> r < 6 \<and> 0 \<le> c \<and> c < 7 \<Longrightarrow>
   \<exists>w. all_player b p l = Inr w"
proof (induction l)
  case Nil
  then show ?case by auto
next
  case (Cons rc l)
  obtain r c where rc: "rc = (r, c)" by (cases rc)
  with Cons.prems cell_wf_int [of b r c] obtain x where "cell b r c = Inr x" by auto
  with Cons rc show ?case by auto
qed

lemma any_line_wf: "wf_board b \<Longrightarrow> in_grid ls \<Longrightarrow> \<exists>w. any_line b p ls = Inr w"
proof (induction ls)
  case Nil
  then show ?case by auto
next
  case (Cons l ls)
  from Cons.prems all_player_wf [of b l p] obtain w where "all_player b p l = Inr w"
    by (auto simp: in_grid_def)
  moreover from Cons have "\<exists>w. any_line b p ls = Inr w" by (simp add: in_grid_def)
  ultimately show ?case by auto
qed

lemma in_grid_lines:
  "in_grid horizontal_lines" "in_grid vertical_lines"
  "in_grid diagonal_down_lines" "in_grid diagonal_up_lines"
  by (simp_all add: in_grid_def horizontal_lines_def vertical_lines_def
      diagonal_down_lines_def diagonal_up_lines_def py_range_def ROWS_def COLUMNS_def upto.simps)

lemma check_win_wf: "wf_board b \<Longrightarrow> \<exists>w. check_win b p = Inr w"
  using any_line_wf [of b horizontal_lines p] any_line_wf [of b vertical_lines p]
    any_line_wf [of b diagonal_down_lines p] any_line_wf [of b diagonal_up_lines p]
  by (auto simp: check_win_def in_grid_lines)

lemma evaluate_wf: "wf_board b \<Longrightarrow> \<exists>s. evaluate b = Inr s"
  using check_win_wf [of b 1] check_win_wf [of b "- 1"] by (auto simp: evaluate_def)

lemma evaluate_range: "evaluate b = Inr s \<Longrightarrow> s = 100 \<or> s = - 100 \<or> s = 0"
  by (auto simp: evaluate_def split: sum.splits if_splits)

lemma get_valid_moves_filter:
  "get_valid_moves b d = Inr ms \<Longrightarrow> ms = filter (\<lambda>c. cell b 0 c = Inr 0) [0, 1, 2]"
  using valid_loop_filter [of b "[0, 1, 2]" "[]" ms] by (simp add: get_valid_moves_def)

lemma get_valid_moves_wf:
  assumes "wf_board b"
  shows "get_valid_moves b d = Inr (filter (\<lambda>c. b ! 0 ! nat c = 0) [0, 1, 2])"
  using cell_wf [OF assms, of 0 0] cell_wf [OF assms, of 0 1] cell_wf [OF assms, of 0 2]
  by (simp add: get_valid_moves_def COLUMNS_def)

lemma get_valid_moves_subset:
  assumes "get_valid_moves b d = Inr ms" "m \<in> set ms"
  shows "m = 0 \<or> m = 1 \<or> m = 2"
proof -
  have "set (filter (\<lambda>c. cell b 0 c = Inr 0) [0, 1, 2]) \<subseteq> set [0, 1, 2]"
    by (rule filter_is_subset)
  with assms get_valid_moves_filter [OF assms(1)] show ?thesis by auto
qed

lemma make_move_wf:
  assumes "wf_board b" "- COLUMNS \<le> col" "col < COLUMNS"
  shows "\<exists>b'. make_move b col p = Inr b' \<and> wf_board b'"
proof (cases "\<exists>r<6. b ! r ! nat (col mod COLUMNS) = 0")
  case True
  from make_move_lowest [OF assms True, of p] show ?thesis by blast
next
  case False
  then have "\<forall>r<6. b ! r ! nat (col mod COLUMNS) \<noteq> 0" by simp
  from make_move_full [OF assms this, of p] assms(1) show ?thesis by simp
qed

lemma child_wf:
  assumes "wf_board b" "get_valid_moves b d = Inr ms" "m \<in> set ms"
  shows "\<exists>b'. make_move b m p = Inr b' \<and> wf_board b'"
  using get_valid_moves_subset [OF assms(2,3)] make_move_wf [OF assms(1), of m p]
  by (auto simp: COLUMNS_def)

section \<open>Board operations\<close>

subsection \<open>Boards with distinct rows\<close>

text \<open>
  On a board object whose rows are distinct objects, \<open>make_move_store\<close> does what \<open>make_move\<close>
  does on the board as a value, errors included; the rows of the result are distinct
  objects again, all of them new. This is the case of every board of the program:
  \<^verbatim>\<open>create_initial_board\<close> builds six distinct rows, and every other board is a result of
  \<^verbatim>\<open>make_move\<close>. On any board object, \<open>make_move_store\<close> leaves every object of the store it
  was given as it was.
\<close>

lemma deepcopy_loop_distinct:
  "distinct rows \<Longrightarrow> \<forall>a \<in> set rows. a < length st \<and> map_of memo a = None \<Longrightarrow>
   deepcopy_loop st memo rows y =
     (st @ map (\<lambda>a. st ! a) rows, y @ [length st ..< length st + length rows])"
proof (induction rows arbitrary: st memo y)
  case Nil
  then show ?case by simp
next
  case (Cons a rows)
  from Cons.prems have a: "map_of memo a = None" "a < length st" "a \<notin> set rows"
    and d: "distinct rows" by simp_all
  have v: "\<forall>x \<in> set rows. x < length (st @ [st ! a]) \<and> map_of ((a, length st) # memo) x = None"
    using Cons.prems a(3) by auto
  have m: "map (\<lambda>x. (st @ [st ! a]) ! x) rows = map (\<lambda>x. st ! x) rows"
    using Cons.prems by (auto simp: nth_append)
  have "[length st ..< length st + Suc (length rows)] =
      length st # [Suc (length st) ..< length st + Suc (length rows)]"
    by (rule upt_conv_Cons) simp
  then have u: "[length st ..< length st + length (a # rows)] =
      length st # [length (st @ [st ! a]) ..< length (st @ [st ! a]) + length rows]"
    by simp
  from Cons.IH [OF d v, of "y @ [length st]"] a(1) m u show ?case by simp
qed

lemma deepcopy_distinct:
  assumes "distinct board" "\<forall>a \<in> set board. a < length st"
  shows "deepcopy st board =
     (st @ read_board st board, [length st ..< length st + length board])"
  unfolding deepcopy_def read_board_def
  using deepcopy_loop_distinct [OF assms(1), of st "[]" "[]"] assms(2) by simp

lemma py_get_map: "py_get (map f xs) i = map_sum id f (py_get xs i)"
  by (auto simp: py_get_def split: sum.splits dest: py_index_Inr)

lemma read_board_update:
  assumes "distinct nb" "j < length nb" "nb ! j = a" "a < length st"
  shows "read_board (st[a := row]) nb = (read_board st nb)[j := row]"
proof (rule nth_equalityI)
  show "length (read_board (st[a := row]) nb) = length ((read_board st nb)[j := row])"
    by (simp add: read_board_def)
next
  fix i assume "i < length (read_board (st[a := row]) nb)"
  then have i: "i < length nb" by (simp add: read_board_def)
  have "(nb ! i = a) = (i = j)"
    using assms i by (auto simp: nth_eq_iff_index_eq)
  with i assms(2,4) show "read_board (st[a := row]) nb ! i = (read_board st nb)[j := row] ! i"
    by (auto simp: read_board_def nth_list_update)
qed


lemma py_get_nth: "py_get xs i = Inr x \<Longrightarrow> \<exists>j<length xs. py_index (length xs) i = Inr j \<and> x = xs ! j"
  by (auto simp: py_get_def split: sum.splits dest: py_index_Inr)

lemma cell_read_board:
  "cell (read_board st nb) r col =
     (case py_get nb r of Inl e \<Rightarrow> Inl e | Inr a \<Rightarrow> py_get (st ! a) col)"
  by (simp add: cell_def read_board_def py_get_map split: sum.splits)

lemma set_cell_read_board:
  assumes "distinct nb" "\<forall>a \<in> set nb. a < length st" "py_get nb r = Inr a"
  shows "set_cell (read_board st nb) r col p =
     (case py_set (st ! a) col p of Inl e \<Rightarrow> Inl e
      | Inr row' \<Rightarrow> Inr (read_board (st[a := row']) nb))"
proof -
  from py_get_nth [OF assms(3)] obtain j where j: "j < length nb"
    "py_index (length nb) r = Inr j" "a = nb ! j" by blast
  from j(1,3) assms(2) have a: "a < length st" by simp
  have g: "py_get (read_board st nb) r = Inr (st ! a)"
    using assms(3) by (simp add: read_board_def py_get_map)
  have s: "py_set (read_board st nb) r row' = Inr (read_board (st[a := row']) nb)" for row'
    using j(2) read_board_update [OF assms(1) j(1) j(3) [symmetric] a, of row']
    by (simp add: py_set_def read_board_def)
  show ?thesis unfolding set_cell_def g by (simp add: s split: sum.splits)
qed

lemma drop_loop_store_refines:
  assumes "distinct nb" "\<forall>a \<in> set nb. a < length st"
  shows "case drop_loop_store st nb rs col p of
           Inl e \<Rightarrow> drop_loop (read_board st nb) rs col p = Inl e
         | Inr st' \<Rightarrow> drop_loop (read_board st nb) rs col p = Inr (read_board st' nb) \<and>
             length st' = length st \<and> (\<forall>a. a \<notin> set nb \<longrightarrow> st' ! a = st ! a)"
proof (induction rs)
  case Nil
  then show ?case by simp
next
  case (Cons r rs)
  show ?case
  proof (cases "py_get nb r")
    case (Inl e)
    then show ?thesis by (simp add: cell_read_board)
  next
    case (Inr a)
    note a = Inr
    from py_get_nth [OF a] have an: "a \<in> set nb" by auto
    show ?thesis
    proof (cases "py_get (st ! a) col")
      case (Inl e)
      with a show ?thesis by (simp add: cell_read_board)
    next
      case (Inr x)
      show ?thesis
      proof (cases "x = 0")
        case True
        show ?thesis
        proof (cases "py_set (st ! a) col p")
          case (Inl e)
          with a Inr True set_cell_read_board [OF assms a, of col p] show ?thesis
            by (simp add: cell_read_board)
        next
          case (Inr row')
          have "st[a := row'] ! b = st ! b" if "b \<notin> set nb" for b
          proof -
            from that an have "a \<noteq> b" by auto
            then show ?thesis by (rule nth_list_update_neq)
          qed
          then have "\<forall>b. b \<notin> set nb \<longrightarrow> st[a := row'] ! b = st ! b" by simp
          with a \<open>py_get (st ! a) col = Inr x\<close> True Inr
            set_cell_read_board [OF assms a, of col p] show ?thesis
            by (simp add: cell_read_board)
        qed
      next
        case False
        with a Inr Cons.IH show ?thesis by (auto simp: cell_read_board split: sum.splits)
      qed
    qed
  qed
qed


lemma read_board_fresh:
  "read_board (st @ rows) [length st ..< length st + length rows] = rows"
  by (rule nth_equalityI) (simp_all add: read_board_def nth_append)

lemma make_move_store_refines:
  assumes "distinct board" "\<forall>a \<in> set board. a < length st"
  shows "case make_move_store st board col player of
           Inl e \<Rightarrow> make_move (read_board st board) col player = Inl e
         | Inr (st', new_board) \<Rightarrow>
             make_move (read_board st board) col player = Inr (read_board st' new_board) \<and>
             take (length st) st' = st \<and> distinct new_board \<and>
             (\<forall>a \<in> set new_board. length st \<le> a \<and> a < length st')"
proof -
  let ?B = "read_board st board"
  let ?nb = "[length st ..< length st + length board]"
  have len: "length ?B = length board" by (simp add: read_board_def)
  have dc: "deepcopy st board = (st @ ?B, ?nb)" using assms by (rule deepcopy_distinct)
  have d: "distinct ?nb" by simp
  have v: "\<forall>a \<in> set ?nb. a < length (st @ ?B)" by (simp add: len)
  have rb: "read_board (st @ ?B) ?nb = ?B" using read_board_fresh [of st ?B] by (simp add: len)
  note ref = drop_loop_store_refines [OF d v, of "rev (py_range 0 ROWS)" col player]
  show ?thesis
  proof (cases "drop_loop_store (st @ ?B) ?nb (rev (py_range 0 ROWS)) col player")
    case (Inl e)
    with ref rb dc show ?thesis by (simp add: make_move_store_def make_move_def)
  next
    case (Inr st')
    with ref rb have r: "make_move ?B col player = Inr (read_board st' ?nb)"
      "length st' = length (st @ ?B)" "\<forall>a. a \<notin> set ?nb \<longrightarrow> st' ! a = (st @ ?B) ! a"
      by (simp_all add: make_move_def)
    have "take (length st) st' = st"
    proof (rule nth_equalityI)
      show "length (take (length st) st') = length st" using r(2) by simp
    next
      fix i assume "i < length (take (length st) st')"
      then have i: "i < length st" by simp
      then have "i \<notin> set ?nb" by simp
      with r(3) have "st' ! i = (st @ ?B) ! i" by blast
      with i show "take (length st) st' ! i = st ! i" by (simp add: nth_append)
    qed
    moreover have "\<forall>a \<in> set ?nb. length st \<le> a \<and> a < length st'" using r(2) by (simp add: len)
    ultimately show ?thesis using Inr dc r(1) d by (simp add: make_move_store_def)
  qed
qed

lemma make_move_store_frame:
  assumes "distinct board" and "\<forall>a \<in> set board. a < length st"
    and "wf_board (read_board st board)"
    and "- COLUMNS \<le> col" and "col < COLUMNS"
    and "\<exists>r<6. read_board st board ! r ! nat (col mod COLUMNS) = 0"
  shows "\<exists>r0 st' new_board. r0 < 6 \<and> read_board st board ! r0 ! nat (col mod COLUMNS) = 0 \<and>
           (\<forall>r. r0 < r \<and> r < 6 \<longrightarrow> read_board st board ! r ! nat (col mod COLUMNS) \<noteq> 0) \<and>
           make_move_store st board col player = Inr (st', new_board) \<and>
           take (length st) st' = st \<and>
           distinct new_board \<and> (\<forall>a \<in> set new_board. length st \<le> a \<and> a < length st') \<and>
           make_move (read_board st board) col player = Inr (read_board st' new_board) \<and>
           wf_board (read_board st' new_board) \<and>
           read_board st' new_board ! r0 ! nat (col mod COLUMNS) = player \<and>
           (\<forall>r<6. \<forall>c<7. (r, c) \<noteq> (r0, nat (col mod COLUMNS)) \<longrightarrow>
              read_board st' new_board ! r ! c = read_board st board ! r ! c)"
proof -
  from make_move_lowest [OF assms(3-6), of player]
  obtain r0 new where r0: "r0 < 6" "read_board st board ! r0 ! nat (col mod COLUMNS) = 0"
    "\<forall>r. r0 < r \<and> r < 6 \<longrightarrow> read_board st board ! r ! nat (col mod COLUMNS) \<noteq> 0"
    and new: "make_move (read_board st board) col player = Inr new" "wf_board new"
    "new ! r0 ! nat (col mod COLUMNS) = player"
    "\<forall>r<6. \<forall>c<7. (r, c) \<noteq> (r0, nat (col mod COLUMNS)) \<longrightarrow>
       new ! r ! c = read_board st board ! r ! c"
    by blast
  from make_move_store_refines [OF assms(1,2), of col player] new(1)
  obtain st' new_board where s: "make_move_store st board col player = Inr (st', new_board)"
    "new = read_board st' new_board" "take (length st) st' = st" "distinct new_board"
    "\<forall>a \<in> set new_board. length st \<le> a \<and> a < length st'"
    by (auto split: sum.splits)
  from r0 new s show ?thesis by blast
qed



lemma deepcopy_loop_fresh:
  assumes "deepcopy_loop st memo rows y = (st', nb)"
    and "n \<le> length st"
    and "\<forall>a a'. map_of memo a = Some a' \<longrightarrow> n \<le> a' \<and> a' < length st"
    and "\<forall>v \<in> set y. n \<le> v \<and> v < length st"
  shows "take n st' = take n st \<and> (\<forall>v \<in> set nb. n \<le> v \<and> v < length st')"
  using assms
proof (induction rows arbitrary: st memo y)
  case Nil
  then show ?case by simp
next
  case (Cons a rows)
  show ?case
  proof (cases "map_of memo a")
    case None
    with Cons.prems(1)
    have rest: "deepcopy_loop (st @ [st ! a]) ((a, length st) # memo) rows (y @ [length st]) =
        (st', nb)" by simp
    have 1: "n \<le> length (st @ [st ! a])" using Cons.prems(2) by simp
    have 2: "\<forall>b b'. map_of ((a, length st) # memo) b = Some b' \<longrightarrow>
        n \<le> b' \<and> b' < length (st @ [st ! a])"
      using Cons.prems(2,3) by (auto simp: less_Suc_eq)
    have 3: "\<forall>v \<in> set (y @ [length st]). n \<le> v \<and> v < length (st @ [st ! a])"
      using Cons.prems(2,4) by (auto simp: less_Suc_eq)
    from Cons.IH [OF rest 1 2 3] Cons.prems(2) show ?thesis by simp
  next
    case (Some a')
    with Cons.prems(1) have rest: "deepcopy_loop st memo rows (y @ [a']) = (st', nb)" by simp
    have 3: "\<forall>v \<in> set (y @ [a']). n \<le> v \<and> v < length st"
      using Cons.prems(3,4) Some by auto
    from Cons.IH [OF rest Cons.prems(2,3) 3] show ?thesis .
  qed
qed

lemma drop_loop_store_frame:
  "drop_loop_store st nb rs col p = Inr st' \<Longrightarrow>
   length st' = length st \<and> (\<forall>a. a \<notin> set nb \<longrightarrow> st' ! a = st ! a)"
proof (induction rs)
  case Nil
  then show ?case by simp
next
  case (Cons r rs)
  from Cons.prems obtain a x where a: "py_get nb r = Inr a" "py_get (st ! a) col = Inr x"
    by (auto split: sum.splits)
  from py_get_nth [OF a(1)] have an: "a \<in> set nb" by auto
  show ?case
  proof (cases "x = 0")
    case True
    with Cons.prems a obtain row' where "st' = st[a := row']"
      by (auto split: sum.splits)
    moreover have "st[a := row'] ! b = st ! b" if "b \<notin> set nb" for b
    proof -
      from that an have "a \<noteq> b" by auto
      then show ?thesis by (rule nth_list_update_neq)
    qed
    ultimately show ?thesis by simp
  next
    case False
    with Cons.prems a have "drop_loop_store st nb rs col p = Inr st'" by simp
    then show ?thesis by (rule Cons.IH)
  qed
qed

lemma make_move_store_input:
  assumes "make_move_store st board col player = Inr (st', new_board)"
  shows "take (length st) st' = st"
proof -
  obtain st1 nb where dc: "deepcopy st board = (st1, nb)" by (cases "deepcopy st board")
  with assms have dl: "drop_loop_store st1 nb (rev (py_range 0 ROWS)) col player = Inr st'"
    by (auto simp: make_move_store_def split: sum.splits)
  from dc have "deepcopy_loop st [] board [] = (st1, nb)" by (simp add: deepcopy_def)
  from deepcopy_loop_fresh [OF this, of "length st"]
  have f: "take (length st) st1 = st" "\<forall>v \<in> set nb. length st \<le> v" by simp_all
  from drop_loop_store_frame [OF dl]
  have s: "length st' = length st1" "\<forall>a. a \<notin> set nb \<longrightarrow> st' ! a = st1 ! a" by simp_all
  have l: "length st \<le> length st1" using f(1) by (metis length_take min.cobounded2 min_def nat_le_linear)
  show ?thesis
  proof (rule nth_equalityI)
    show "length (take (length st) st') = length st" using s(1) l by simp
  next
    fix i assume "i < length (take (length st) st')"
    then have i: "i < length st" by simp
    with f(2) have "i \<notin> set nb" by auto
    with s(2) have "st' ! i = st1 ! i" by blast
    moreover have "st1 ! i = take (length st) st1 ! i" using i by simp
    ultimately show "take (length st) st' ! i = st ! i" using i f(1) by simp
  qed
qed

text \<open>
  C7, as the code has it. On every board object, \<open>make_move\<close> changes no object that existed
  before the call: the input board is left unmodified. On a well-formed board whose rows
  are distinct objects, for a column subscript the grid accepts and any player, if the
  column has an empty cell then \<open>make_move\<close> returns a new board, with new and distinct
  rows, that carries \<open>player\<close> in the lowest empty cell \<open>r0\<close> of that column (the empty cell
  with the greatest row index) and agrees with the input board in every other cell, in
  particular in every other column; it is the board that \<open>make_move\<close> on values returns.
\<close>

theorem make_move_frame:
  "(\<forall>st' new_board. make_move_store st board col player = Inr (st', new_board) \<longrightarrow>
      take (length st) st' = st) \<and>
   (distinct board \<and> (\<forall>a \<in> set board. a < length st) \<and> wf_board (read_board st board) \<and>
    - COLUMNS \<le> col \<and> col < COLUMNS \<and>
    (\<exists>r<6. read_board st board ! r ! nat (col mod COLUMNS) = 0) \<longrightarrow>
      (\<exists>r0 st' new_board. r0 < 6 \<and> read_board st board ! r0 ! nat (col mod COLUMNS) = 0 \<and>
         (\<forall>r. r0 < r \<and> r < 6 \<longrightarrow> read_board st board ! r ! nat (col mod COLUMNS) \<noteq> 0) \<and>
         make_move_store st board col player = Inr (st', new_board) \<and>
         take (length st) st' = st \<and>
         distinct new_board \<and> (\<forall>a \<in> set new_board. length st \<le> a \<and> a < length st') \<and>
         make_move (read_board st board) col player = Inr (read_board st' new_board) \<and>
         wf_board (read_board st' new_board) \<and>
         read_board st' new_board ! r0 ! nat (col mod COLUMNS) = player \<and>
         (\<forall>r<6. \<forall>c<7. (r, c) \<noteq> (r0, nat (col mod COLUMNS)) \<longrightarrow>
            read_board st' new_board ! r ! c = read_board st board ! r ! c)))"
proof (intro conjI allI impI)
  fix st' new_board
  assume "make_move_store st board col player = Inr (st', new_board)"
  then show "take (length st) st' = st" by (rule make_move_store_input)
next
  assume h: "distinct board \<and> (\<forall>a \<in> set board. a < length st) \<and>
    wf_board (read_board st board) \<and> - COLUMNS \<le> col \<and> col < COLUMNS \<and>
    (\<exists>r<6. read_board st board ! r ! nat (col mod COLUMNS) = 0)"
  then have "distinct board" "\<forall>a \<in> set board. a < length st" "wf_board (read_board st board)"
    "- COLUMNS \<le> col" "col < COLUMNS"
    "\<exists>r<6. read_board st board ! r ! nat (col mod COLUMNS) = 0" by blast+
  then show "\<exists>r0 st' new_board. r0 < 6 \<and>
      read_board st board ! r0 ! nat (col mod COLUMNS) = 0 \<and>
      (\<forall>r. r0 < r \<and> r < 6 \<longrightarrow> read_board st board ! r ! nat (col mod COLUMNS) \<noteq> 0) \<and>
      make_move_store st board col player = Inr (st', new_board) \<and>
      take (length st) st' = st \<and>
      distinct new_board \<and> (\<forall>a \<in> set new_board. length st \<le> a \<and> a < length st') \<and>
      make_move (read_board st board) col player = Inr (read_board st' new_board) \<and>
      wf_board (read_board st' new_board) \<and>
      read_board st' new_board ! r0 ! nat (col mod COLUMNS) = player \<and>
      (\<forall>r<6. \<forall>c<7. (r, c) \<noteq> (r0, nat (col mod COLUMNS)) \<longrightarrow>
         read_board st' new_board ! r ! c = read_board st board ! r ! c)"
    by (rule make_move_store_frame)
qed

text \<open>
  The initial board as six row objects at the addresses 0 to 5, and a move of MAX in
  column 2: the six rows of the result are new objects, the old ones are as they were.
\<close>

theorem make_move_frame_witness:
  "\<exists>r0 st' new_board. r0 < 6 \<and> create_initial_board ! r0 ! 2 = 0 \<and>
     make_move_store create_initial_board [0, 1, 2, 3, 4, 5] 2 1 = Inr (st', new_board) \<and>
     take 6 st' = create_initial_board \<and>
     make_move create_initial_board 2 1 = Inr (read_board st' new_board) \<and>
     read_board st' new_board ! r0 ! 2 = 1"
proof -
  have l: "length create_initial_board = 6" by (simp add: create_initial_board_def)
  have rb: "read_board create_initial_board [0, 1, 2, 3, 4, 5] = create_initial_board"
    by (simp add: read_board_def create_initial_board_def)
  have e: "\<exists>r<6. create_initial_board ! r ! nat (2 mod COLUMNS) = 0"
    by (intro exI [of _ 0]) (simp add: create_initial_board_def COLUMNS_def)
  have d: "distinct [0, 1, 2, 3, 4, 5 :: nat]" by simp
  have v: "\<forall>a \<in> set [0, 1, 2, 3, 4, 5 :: nat]. a < length create_initial_board"
    by (simp add: l)
  from make_move_frame [of create_initial_board "[0, 1, 2, 3, 4, 5]" 2 1]
    d v rb wf_create_initial_board e l
  show ?thesis by (auto simp: COLUMNS_def)
qed

text \<open>
  The board \<^verbatim>\<open>[[0] * 7] * 6\<close>: one row object, at address 0, six times. The copy has one new
  row object six times, and the single write of \<^verbatim>\<open>make_move\<close> shows in column 0 of all six
  rows of the result: six cells differ from the input board, not one.
\<close>

theorem make_move_frame_counterexample:
  "wf_board (read_board [[0, 0, 0, 0, 0, 0, 0]] [0, 0, 0, 0, 0, 0]) \<and>
   read_board [[0, 0, 0, 0, 0, 0, 0]] [0, 0, 0, 0, 0, 0] =
     [[0, 0, 0, 0, 0, 0, 0], [0, 0, 0, 0, 0, 0, 0], [0, 0, 0, 0, 0, 0, 0],
      [0, 0, 0, 0, 0, 0, 0], [0, 0, 0, 0, 0, 0, 0], [0, 0, 0, 0, 0, 0, 0]] \<and>
   make_move_store [[0, 0, 0, 0, 0, 0, 0]] [0, 0, 0, 0, 0, 0] 0 1 =
     Inr ([[0, 0, 0, 0, 0, 0, 0], [1, 0, 0, 0, 0, 0, 0]], [1, 1, 1, 1, 1, 1]) \<and>
   read_board [[0, 0, 0, 0, 0, 0, 0], [1, 0, 0, 0, 0, 0, 0]] [1, 1, 1, 1, 1, 1] =
     [[1, 0, 0, 0, 0, 0, 0], [1, 0, 0, 0, 0, 0, 0], [1, 0, 0, 0, 0, 0, 0],
      [1, 0, 0, 0, 0, 0, 0], [1, 0, 0, 0, 0, 0, 0], [1, 0, 0, 0, 0, 0, 0]]"
  by code_simp

text \<open>
  C8. On a well-formed board, when no cell of the target column is empty, \<open>make_move\<close>
  raises nothing and returns a board equal to its argument.
\<close>

theorem make_move_full_column_noop:
  assumes "wf_board board" and "- COLUMNS \<le> col" and "col < COLUMNS"
    and "\<forall>r<6. board ! r ! nat (col mod COLUMNS) \<noteq> 0"
  shows "make_move board col player = Inr board"
  using make_move_full [OF assms] .

theorem make_move_full_column_noop_witness:
  "make_move [[1, - 1, 1, 0, 0, 0, 0], [1, - 1, 1, 0, 0, 0, 0], [- 1, 1, - 1, 0, 0, 0, 0],
              [- 1, 1, - 1, 0, 0, 0, 0], [1, - 1, 1, 0, 0, 0, 0], [1, - 1, 1, 0, 0, 0, 0]] 1 (- 1) =
   Inr [[1, - 1, 1, 0, 0, 0, 0], [1, - 1, 1, 0, 0, 0, 0], [- 1, 1, - 1, 0, 0, 0, 0],
        [- 1, 1, - 1, 0, 0, 0, 0], [1, - 1, 1, 0, 0, 0, 0], [1, - 1, 1, 0, 0, 0, 0]]"
  by (rule make_move_full_column_noop)
     (simp_all add: wf_board_def ROWS_def COLUMNS_def less_Suc_eq eval_nat_numeral)

text \<open>
  C9. On a well-formed board \<open>get_valid_moves\<close> returns exactly the columns among 0, 1, 2
  whose cell in row 0 is empty, in ascending order; no other column is ever returned.
\<close>

theorem get_valid_moves_top_empty:
  assumes "wf_board board"
  shows "\<exists>moves. get_valid_moves board depth = Inr moves \<and>
           moves = filter (\<lambda>c. board ! 0 ! nat c = 0) [0, 1, 2] \<and>
           sorted moves \<and> distinct moves \<and> set moves \<subseteq> {0, 1, 2}"
proof -
  have "sorted (filter (\<lambda>c. board ! 0 ! nat c = 0) [0, 1, 2 :: int])"
    by (rule sorted_filter [where f = "\<lambda>x. x", simplified]) simp
  moreover have "distinct (filter (\<lambda>c. board ! 0 ! nat c = 0) [0, 1, 2 :: int])"
    by (rule distinct_filter) simp
  moreover have "set (filter (\<lambda>c. board ! 0 ! nat c = 0) [0, 1, 2 :: int]) \<subseteq> {0, 1, 2}"
    by auto
  ultimately show ?thesis using get_valid_moves_wf [OF assms, of depth] by simp
qed

theorem get_valid_moves_top_empty_witness:
  "get_valid_moves [[1, 0, 0, 5, 0, 0, 0], [1, 0, 0, 0, 0, 0, 0], [1, 0, 0, 0, 0, 0, 0],
                    [1, 0, 0, 0, 0, 0, 0], [1, 0, 0, 0, 0, 0, 0], [1, 0, 0, 0, 0, 0, 0]] 0 =
   Inr [1, 2]"
  using get_valid_moves_top_empty
    [of "[[1, 0, 0, 5, 0, 0, 0], [1, 0, 0, 0, 0, 0, 0], [1, 0, 0, 0, 0, 0, 0],
          [1, 0, 0, 0, 0, 0, 0], [1, 0, 0, 0, 0, 0, 0], [1, 0, 0, 0, 0, 0, 0]]" 0]
  by (simp add: wf_board_def ROWS_def COLUMNS_def)

text \<open>
  C10. The result of \<open>get_valid_moves\<close> does not depend on its depth argument, so nodes of
  both kinds get the same moves on the same board.
\<close>

theorem get_valid_moves_depth_irrelevant:
  "get_valid_moves board d1 = get_valid_moves board d2"
  by (simp add: get_valid_moves_def)

declare minimax.simps [simp del] alphabeta.simps [simp del]
  collect_tree_nodes.simps [simp del] collect_alphabeta_tree_nodes.simps [simp del]

section \<open>Terminal nodes\<close>

lemma minimax_terminal:
  "evaluate b = Inr s \<Longrightarrow> d = MAX_DEPTH \<or> s \<noteq> 0 \<Longrightarrow> minimax b d p = Inr (Fin s)"
  by (subst minimax.simps) auto

lemma alphabeta_terminal:
  "evaluate b = Inr s \<Longrightarrow> d = MAX_DEPTH \<or> s \<noteq> 0 \<Longrightarrow> alphabeta b d p al be = Inr (Fin s)"
  by (subst alphabeta.simps) auto

lemma collect_tree_nodes_terminal:
  "evaluate b = Inr s \<Longrightarrow> d = MAX_DEPTH \<or> s \<noteq> 0 \<Longrightarrow>
   collect_tree_nodes b d p nt =
     Inr ([\<lparr>n_path = p, n_state = node_state d p, n_value = Fin s, n_type = TerminalNode,
            n_depth = d, n_children_values = None, n_moves = None, n_explored_moves = None,
            n_pruned = None, n_alpha = None, n_beta = None\<rparr>], Fin s)"
  by (subst collect_tree_nodes.simps) auto

lemma collect_alphabeta_tree_nodes_terminal:
  "evaluate b = Inr s \<Longrightarrow> d = MAX_DEPTH \<or> s \<noteq> 0 \<Longrightarrow>
   collect_alphabeta_tree_nodes b d p al be =
     Inr ([\<lparr>n_path = p, n_state = node_state d p, n_value = Fin s, n_type = TerminalNode,
            n_depth = d, n_children_values = None, n_moves = None, n_explored_moves = None,
            n_pruned = None, n_alpha = Some al, n_beta = Some be\<rparr>], Fin s)"
  by (subst collect_alphabeta_tree_nodes.simps) auto

lemma collect_tree_nodes_internal:
  assumes "evaluate b = Inr s" "\<not> (d = MAX_DEPTH \<or> s \<noteq> 0)"
    and "collect_tree_nodes b d p nt = Inr (nodes, v)"
  shows "\<exists>moves. get_valid_moves b d = Inr moves \<and> nodes \<noteq> [] \<and>
           n_type (last nodes) = (if d mod 2 = 0 then MaxNode else MinNode) \<and>
           n_moves (last nodes) = Some moves \<and> n_path (last nodes) = p"
  using assms(3) unfolding collect_tree_nodes.simps [of b d p nt]
  using assms(1,2) by (auto split: sum.splits if_splits)

lemma collect_alphabeta_tree_nodes_internal:
  assumes "evaluate b = Inr s" "\<not> (d = MAX_DEPTH \<or> s \<noteq> 0)"
    and "collect_alphabeta_tree_nodes b d p al be = Inr (nodes, v)"
  shows "\<exists>moves. get_valid_moves b d = Inr moves \<and> nodes \<noteq> [] \<and>
           n_type (last nodes) = (if d mod 2 = 0 then MaxNode else MinNode) \<and>
           n_moves (last nodes) = Some moves \<and> n_path (last nodes) = p"
  using assms(3) unfolding collect_alphabeta_tree_nodes.simps [of b d p al be]
  using assms(1,2) by (auto split: sum.splits if_splits)

lemma minimax_internal:
  assumes "evaluate b = Inr s" "\<not> (d = MAX_DEPTH \<or> s \<noteq> 0)"
  shows "minimax b d p =
    (case get_valid_moves b d of Inl e \<Rightarrow> Inl e
     | Inr moves \<Rightarrow>
         if d mod 2 = 0 then
           max_loop (\<lambda>m. case make_move b m 1 of Inl e \<Rightarrow> Inl e
                      | Inr child \<Rightarrow> minimax child (d + 1) (p @ [m])) moves NegInf
         else
           min_loop (\<lambda>m. case make_move b m (- 1) of Inl e \<Rightarrow> Inl e
                      | Inr child \<Rightarrow> minimax child (d + 1) (p @ [m])) moves PosInf)"
  using assms by (subst minimax.simps) (simp split: sum.splits)

lemma alphabeta_internal:
  assumes "evaluate b = Inr s" "\<not> (d = MAX_DEPTH \<or> s \<noteq> 0)"
  shows "alphabeta b d p al be =
    (case get_valid_moves b d of Inl e \<Rightarrow> Inl e
     | Inr moves \<Rightarrow>
         if d mod 2 = 0 then
           ab_max_loop (\<lambda>m alpha beta. case make_move b m 1 of Inl e \<Rightarrow> Inl e
                          | Inr child \<Rightarrow> alphabeta child (d + 1) (p @ [m]) alpha beta)
             moves NegInf al be
         else
           ab_min_loop (\<lambda>m alpha beta. case make_move b m (- 1) of Inl e \<Rightarrow> Inl e
                          | Inr child \<Rightarrow> alphabeta child (d + 1) (p @ [m]) alpha beta)
             moves PosInf al be)"
  using assms by (subst alphabeta.simps) (simp split: sum.splits)

lemma evaluate_initial: "evaluate create_initial_board = Inr 0"
  by code_simp

lemma get_valid_moves_initial: "get_valid_moves create_initial_board 0 = Inr [0, 1, 2]"
  by code_simp

lemma minimax_initial: "minimax create_initial_board 0 [] = Inr (Fin 100)"
  by code_simp

lemma alphabeta_initial: "alphabeta create_initial_board 0 [] NegInf PosInf = Inr (Fin 100)"
  by code_simp

text \<open>
  C3. A node is terminal exactly when \<open>depth = MAX_DEPTH\<close> or the evaluation of its board is
  not zero. At a terminal node \<open>minimax\<close> and \<open>alphabeta\<close> return the evaluation itself and
  the collecting searches return the single terminal record of the node, so no child is
  generated, also when the depth is below the limit. At any other node \<open>minimax\<close> and
  \<open>alphabeta\<close> do not return the evaluation: they generate the moves and return what the
  loop over the children returns, the recursive call on the board of each move in turn,
  folded from \<open>-\<infinity>\<close> at a MAX node and from \<open>+\<infinity>\<close> at a MIN node (and an error if generating
  the moves fails); and when a collecting search returns there, the node's own record
  (the last one) is a MAX or MIN record carrying the moves generated for it.
\<close>

theorem terminal_rule:
  assumes "evaluate board = Inr score_win"
  shows "(depth = MAX_DEPTH \<or> score_win \<noteq> 0 \<longrightarrow>
            minimax board depth path = Inr (Fin score_win) \<and>
            alphabeta board depth path alpha beta = Inr (Fin score_win) \<and>
            (\<exists>n. collect_tree_nodes board depth path node_type = Inr ([n], Fin score_win) \<and>
                 n_type n = TerminalNode \<and> n_value n = Fin score_win) \<and>
            (\<exists>n. collect_alphabeta_tree_nodes board depth path alpha beta =
                   Inr ([n], Fin score_win) \<and>
                 n_type n = TerminalNode \<and> n_value n = Fin score_win)) \<and>
         (\<not> (depth = MAX_DEPTH \<or> score_win \<noteq> 0) \<longrightarrow>
            minimax board depth path =
              (case get_valid_moves board depth of Inl e \<Rightarrow> Inl e
               | Inr moves \<Rightarrow>
                   if depth mod 2 = 0 then
                     max_loop (\<lambda>m. case make_move board m 1 of Inl e \<Rightarrow> Inl e
                                | Inr child \<Rightarrow> minimax child (depth + 1) (path @ [m]))
                       moves NegInf
                   else
                     min_loop (\<lambda>m. case make_move board m (- 1) of Inl e \<Rightarrow> Inl e
                                | Inr child \<Rightarrow> minimax child (depth + 1) (path @ [m]))
                       moves PosInf) \<and>
            alphabeta board depth path alpha beta =
              (case get_valid_moves board depth of Inl e \<Rightarrow> Inl e
               | Inr moves \<Rightarrow>
                   if depth mod 2 = 0 then
                     ab_max_loop (\<lambda>m alpha beta. case make_move board m 1 of Inl e \<Rightarrow> Inl e
                                    | Inr child \<Rightarrow>
                                        alphabeta child (depth + 1) (path @ [m]) alpha beta)
                       moves NegInf alpha beta
                   else
                     ab_min_loop (\<lambda>m alpha beta. case make_move board m (- 1) of
                                      Inl e \<Rightarrow> Inl e
                                    | Inr child \<Rightarrow>
                                        alphabeta child (depth + 1) (path @ [m]) alpha beta)
                       moves PosInf alpha beta) \<and>
            (\<forall>nodes v. collect_tree_nodes board depth path node_type = Inr (nodes, v) \<longrightarrow>
               nodes \<noteq> [] \<and> n_type (last nodes) \<noteq> TerminalNode \<and>
               n_path (last nodes) = path \<and>
               (\<exists>moves. get_valid_moves board depth = Inr moves \<and>
                        n_moves (last nodes) = Some moves)) \<and>
            (\<forall>nodes v. collect_alphabeta_tree_nodes board depth path alpha beta =
                         Inr (nodes, v) \<longrightarrow>
               nodes \<noteq> [] \<and> n_type (last nodes) \<noteq> TerminalNode \<and>
               n_path (last nodes) = path \<and>
               (\<exists>moves. get_valid_moves board depth = Inr moves \<and>
                        n_moves (last nodes) = Some moves)))"
proof (intro conjI impI allI)
  assume t: "depth = MAX_DEPTH \<or> score_win \<noteq> 0"
  show "minimax board depth path = Inr (Fin score_win)"
    using assms t by (rule minimax_terminal)
  show "alphabeta board depth path alpha beta = Inr (Fin score_win)"
    using assms t by (rule alphabeta_terminal)
  show "\<exists>n. collect_tree_nodes board depth path node_type = Inr ([n], Fin score_win) \<and>
            n_type n = TerminalNode \<and> n_value n = Fin score_win"
    using collect_tree_nodes_terminal [OF assms t] by simp
  show "\<exists>n. collect_alphabeta_tree_nodes board depth path alpha beta =
              Inr ([n], Fin score_win) \<and>
            n_type n = TerminalNode \<and> n_value n = Fin score_win"
    using collect_alphabeta_tree_nodes_terminal [OF assms t] by simp
next
  assume nt: "\<not> (depth = MAX_DEPTH \<or> score_win \<noteq> 0)"
  show "minimax board depth path =
      (case get_valid_moves board depth of Inl e \<Rightarrow> Inl e
       | Inr moves \<Rightarrow>
           if depth mod 2 = 0 then
             max_loop (\<lambda>m. case make_move board m 1 of Inl e \<Rightarrow> Inl e
                        | Inr child \<Rightarrow> minimax child (depth + 1) (path @ [m]))
               moves NegInf
           else
             min_loop (\<lambda>m. case make_move board m (- 1) of Inl e \<Rightarrow> Inl e
                        | Inr child \<Rightarrow> minimax child (depth + 1) (path @ [m]))
               moves PosInf)"
    using assms nt by (rule minimax_internal)
  show "alphabeta board depth path alpha beta =
      (case get_valid_moves board depth of Inl e \<Rightarrow> Inl e
       | Inr moves \<Rightarrow>
           if depth mod 2 = 0 then
             ab_max_loop (\<lambda>m alpha beta. case make_move board m 1 of Inl e \<Rightarrow> Inl e
                            | Inr child \<Rightarrow>
                                alphabeta child (depth + 1) (path @ [m]) alpha beta)
               moves NegInf alpha beta
           else
             ab_min_loop (\<lambda>m alpha beta. case make_move board m (- 1) of
                              Inl e \<Rightarrow> Inl e
                            | Inr child \<Rightarrow>
                                alphabeta child (depth + 1) (path @ [m]) alpha beta)
               moves PosInf alpha beta)"
    using assms nt by (rule alphabeta_internal)
next
  fix nodes v
  assume nt: "\<not> (depth = MAX_DEPTH \<or> score_win \<noteq> 0)"
    and c: "collect_tree_nodes board depth path node_type = Inr (nodes, v)"
  from collect_tree_nodes_internal [OF assms nt c]
  show "nodes \<noteq> []" "n_type (last nodes) \<noteq> TerminalNode" "n_path (last nodes) = path"
    "\<exists>moves. get_valid_moves board depth = Inr moves \<and> n_moves (last nodes) = Some moves"
    by (auto split: if_splits)
next
  fix nodes v
  assume nt: "\<not> (depth = MAX_DEPTH \<or> score_win \<noteq> 0)"
    and c: "collect_alphabeta_tree_nodes board depth path alpha beta = Inr (nodes, v)"
  from collect_alphabeta_tree_nodes_internal [OF assms nt c]
  show "nodes \<noteq> []" "n_type (last nodes) \<noteq> TerminalNode" "n_path (last nodes) = path"
    "\<exists>moves. get_valid_moves board depth = Inr moves \<and> n_moves (last nodes) = Some moves"
    by (auto split: if_splits)
qed

text \<open>
  A terminal node below the depth limit (MAX has four in column 2 after one move), and
  the root: its board evaluates to 0 and the searches return 100, the value of the loop
  over its three children.
\<close>

theorem terminal_rule_witness:
  "evaluate [[0, 0, 0, 0, 0, 0, 0], [0, 0, 0, 0, 0, 0, 0], [0, 0, 1, 0, 0, 0, 0],
      [1, 1, 1, 0, 0, 0, 0], [1, - 1, 1, 0, 0, 0, - 1], [- 1, 1, 1, - 1, 0, - 1, - 1]] = Inr 100 \<and>
   minimax [[0, 0, 0, 0, 0, 0, 0], [0, 0, 0, 0, 0, 0, 0], [0, 0, 1, 0, 0, 0, 0],
      [1, 1, 1, 0, 0, 0, 0], [1, - 1, 1, 0, 0, 0, - 1], [- 1, 1, 1, - 1, 0, - 1, - 1]] 1 [2] = Inr (Fin 100) \<and>
   alphabeta [[0, 0, 0, 0, 0, 0, 0], [0, 0, 0, 0, 0, 0, 0], [0, 0, 1, 0, 0, 0, 0],
      [1, 1, 1, 0, 0, 0, 0], [1, - 1, 1, 0, 0, 0, - 1], [- 1, 1, 1, - 1, 0, - 1, - 1]] 1 [2] NegInf PosInf = Inr (Fin 100) \<and>
   evaluate create_initial_board = Inr 0 \<and>
   minimax create_initial_board 0 [] =
     max_loop (\<lambda>m. case make_move create_initial_board m 1 of Inl e \<Rightarrow> Inl e
                | Inr child \<Rightarrow> minimax child (0 + 1) ([] @ [m])) [0, 1, 2] NegInf \<and>
   minimax create_initial_board 0 [] = Inr (Fin 100) \<and>
   alphabeta create_initial_board 0 [] NegInf PosInf =
     ab_max_loop (\<lambda>m alpha beta. case make_move create_initial_board m 1 of Inl e \<Rightarrow> Inl e
                    | Inr child \<Rightarrow> alphabeta child (0 + 1) ([] @ [m]) alpha beta)
       [0, 1, 2] NegInf NegInf PosInf \<and>
   alphabeta create_initial_board 0 [] NegInf PosInf = Inr (Fin 100)"
proof -
  have e: "evaluate [[0, 0, 0, 0, 0, 0, 0], [0, 0, 0, 0, 0, 0, 0], [0, 0, 1, 0, 0, 0, 0],
      [1, 1, 1, 0, 0, 0, 0], [1, - 1, 1, 0, 0, 0, - 1], [- 1, 1, 1, - 1, 0, - 1, - 1]] = Inr 100"
    by code_simp
  have d: "\<not> (0 = MAX_DEPTH \<or> (0::int) \<noteq> 0)" by (simp add: MAX_DEPTH_def)
  from terminal_rule [OF e, of 1 "[2]" NegInf PosInf] e
  have t: "minimax [[0, 0, 0, 0, 0, 0, 0], [0, 0, 0, 0, 0, 0, 0], [0, 0, 1, 0, 0, 0, 0],
      [1, 1, 1, 0, 0, 0, 0], [1, - 1, 1, 0, 0, 0, - 1], [- 1, 1, 1, - 1, 0, - 1, - 1]] 1 [2] = Inr (Fin 100) \<and>
      alphabeta [[0, 0, 0, 0, 0, 0, 0], [0, 0, 0, 0, 0, 0, 0], [0, 0, 1, 0, 0, 0, 0],
      [1, 1, 1, 0, 0, 0, 0], [1, - 1, 1, 0, 0, 0, - 1], [- 1, 1, 1, - 1, 0, - 1, - 1]] 1 [2] NegInf PosInf = Inr (Fin 100)" by simp
  from terminal_rule [OF evaluate_initial, of 0 "[]" NegInf PosInf] d get_valid_moves_initial
  have i: "minimax create_initial_board 0 [] =
      max_loop (\<lambda>m. case make_move create_initial_board m 1 of Inl e \<Rightarrow> Inl e
                 | Inr child \<Rightarrow> minimax child (0 + 1) ([] @ [m])) [0, 1, 2] NegInf \<and>
    alphabeta create_initial_board 0 [] NegInf PosInf =
      ab_max_loop (\<lambda>m alpha beta. case make_move create_initial_board m 1 of Inl e \<Rightarrow> Inl e
                     | Inr child \<Rightarrow> alphabeta child (0 + 1) ([] @ [m]) alpha beta)
        [0, 1, 2] NegInf NegInf PosInf"
    by (simp del: max_loop.simps ab_max_loop.simps)
  from e t i evaluate_initial minimax_initial alphabeta_initial show ?thesis by blast
qed

section \<open>Alpha-Beta returns the Minimax value\<close>

text \<open>
  The relation between the value \<open>v\<close> that the search returns for the window \<open>(\<alpha>, \<beta>)\<close> and
  the Minimax value \<open>x\<close> of the same node: below the window \<open>v\<close> is an upper bound of \<open>x\<close>,
  above it a lower bound, inside it the value itself.
\<close>

definition within :: "score \<Rightarrow> score \<Rightarrow> score \<Rightarrow> score \<Rightarrow> bool" where
  "within \<alpha> \<beta> v x = ((v \<le> \<alpha> \<longrightarrow> x \<le> v) \<and> (\<beta> \<le> v \<longrightarrow> v \<le> x) \<and> (\<alpha> < v \<and> v < \<beta> \<longrightarrow> x = v))"

lemma NegInf_least [simp]: "NegInf \<le> x"
  by (simp add: less_eq_score_def)

lemma PosInf_greatest [simp]: "x \<le> PosInf"
  by (cases x) (simp_all add: less_eq_score_def)

lemma Fin_le_iff [simp]: "Fin a \<le> Fin b \<longleftrightarrow> a \<le> b"
  by (simp add: less_eq_score_def)

lemma Fin_less_iff [simp]: "Fin a < Fin b \<longleftrightarrow> a < b"
  by (auto simp: less_score_def)

lemma NegInf_less [simp]: "NegInf < Fin a" "NegInf < PosInf" "Fin a < PosInf"
  by (simp_all add: less_score_def)

lemma if_less_max: "(if (a::score) < b then b else a) = max a b"
  by (auto simp: max_def)

lemma if_less_min: "(if (b::score) < a then b else a) = min a b"
  by (auto simp: min_def)

lemma within_full: "within NegInf PosInf v x \<Longrightarrow> x = v"
  unfolding within_def
  by (metis NegInf_least PosInf_greatest antisym_conv not_le_imp_less)

lemma max_loop_mono: "max_loop g ms best = Inr x \<Longrightarrow> best \<le> x"
proof (induction ms arbitrary: best)
  case Nil
  then show ?case by simp
next
  case (Cons m ms)
  from Cons.prems obtain y where "g m = Inr y"
    and "max_loop g ms (if y > best then y else best) = Inr x"
    by (auto split: sum.splits)
  from Cons.IH [OF this(2)] show ?case by (auto split: if_splits)
qed

lemma min_loop_mono: "min_loop g ms best = Inr x \<Longrightarrow> x \<le> best"
proof (induction ms arbitrary: best)
  case Nil
  then show ?case by simp
next
  case (Cons m ms)
  from Cons.prems obtain y where "g m = Inr y"
    and "min_loop g ms (if y < best then y else best) = Inr x"
    by (auto split: sum.splits)
  from Cons.IH [OF this(2)] show ?case by (auto split: if_splits)
qed

lemma ab_max_loop_within:
  assumes "\<And>m a b y. m \<in> set ms \<Longrightarrow> a < b \<Longrightarrow> g m = Inr y \<Longrightarrow>
             \<exists>v. f m a b = Inr v \<and> within a b v y"
    and "max_loop g ms best = Inr x"
    and "\<alpha> < \<beta>" and "\<alpha> = max \<alpha>0 val"
    and "val \<le> \<alpha>0 \<longrightarrow> best \<le> val" and "\<alpha>0 < val \<longrightarrow> best = val"
  shows "\<exists>v. ab_max_loop f ms val \<alpha> \<beta> = Inr v \<and> within \<alpha>0 \<beta> v x"
  using assms
proof (induction ms arbitrary: val \<alpha> best)
  case Nil
  then show ?case by (auto simp: within_def)
next
  case (Cons m ms)
  from Cons.prems(2) obtain y where y: "g m = Inr y"
    and rest: "max_loop g ms (max best y) = Inr x"
    by (auto simp: if_less_max split: sum.splits)
  from Cons.prems(1) [OF _ Cons.prems(3) y] obtain v
    where v: "f m \<alpha> \<beta> = Inr v" and w: "within \<alpha> \<beta> v y" by auto
  have step: "ab_max_loop f (m # ms) val \<alpha> \<beta> =
      (if \<beta> \<le> max \<alpha> (max val v) then Inr (max val v)
       else ab_max_loop f ms (max val v) (max \<alpha> (max val v)) \<beta>)"
    using v by (simp add: Let_def if_less_max)
  show ?case
  proof (cases "\<beta> \<le> max \<alpha> (max val v)")
    case True
    from max_loop_mono [OF rest] have "y \<le> x" by simp
    have "\<beta> \<le> v" using True Cons.prems(3,4)
      by (auto simp: le_max_iff_disj dest: leD)
    with w have "v \<le> y" by (simp add: within_def)
    have "val < v" using \<open>\<beta> \<le> v\<close> Cons.prems(3,4) by auto
    then have "max val v = v" by simp
    have "within \<alpha>0 \<beta> v x"
      unfolding within_def using \<open>\<beta> \<le> v\<close> \<open>v \<le> y\<close> \<open>y \<le> x\<close> Cons.prems(3,4) by auto
    with True step \<open>max val v = v\<close> show ?thesis by simp
  next
    case False
    then have 1: "max \<alpha> (max val v) < \<beta>" by (simp add: not_le)
    have 2: "max \<alpha> (max val v) = max \<alpha>0 (max val v)"
      unfolding Cons.prems(4) by (simp only: max.assoc max.left_idem)
    have vb: "v < \<beta>" using 1 by simp
    have 3: "max val v \<le> \<alpha>0 \<longrightarrow> max best y \<le> max val v"
    proof
      assume a: "max val v \<le> \<alpha>0"
      then have "val \<le> \<alpha>0" "v \<le> \<alpha>" using Cons.prems(4) by auto
      with w Cons.prems(5) have "y \<le> v" "best \<le> val" by (auto simp: within_def)
      then show "max best y \<le> max val v" by (auto simp: le_max_iff_disj)
    qed
    have 4: "\<alpha>0 < max val v \<longrightarrow> max best y = max val v"
    proof
      assume a: "\<alpha>0 < max val v"
      have b0: "\<alpha>0 \<le> \<alpha>" "val \<le> \<alpha>" using Cons.prems(4) by simp_all
      show "max best y = max val v"
      proof (cases "v \<le> \<alpha>")
        case True
        with w have yv: "y \<le> v" by (simp add: within_def)
        have "\<alpha>0 < val"
        proof (rule ccontr)
          assume "\<not> \<alpha>0 < val"
          then have "val \<le> \<alpha>0" by (simp add: not_less)
          then have "\<alpha> = \<alpha>0" using Cons.prems(4) by (simp add: max_absorb1)
          with True \<open>val \<le> \<alpha>0\<close> have "max val v \<le> \<alpha>0" by simp
          with a show False by (simp add: not_le [symmetric])
        qed
        then have bv: "best = val" and "\<alpha> = val"
          using Cons.prems(4,6) by (simp_all add: max_absorb2 less_imp_le)
        with True have "v \<le> val" by simp
        with yv have "y \<le> val" by (rule order_trans)
        with bv \<open>v \<le> val\<close> show ?thesis by (simp add: max_absorb1)
      next
        case False
        then have av: "\<alpha> < v" by (simp add: not_le)
        with vb w have yv: "y = v" by (simp add: within_def)
        have "val < v" using b0(2) av by (rule le_less_trans)
        have "\<alpha>0 < v" using b0(1) av by (rule le_less_trans)
        have "best \<le> val"
        proof (cases "val \<le> \<alpha>0")
          case True
          with Cons.prems(5) show ?thesis by simp
        next
          case False
          then have "\<alpha>0 < val" by (simp add: not_le)
          with Cons.prems(6) show ?thesis by simp
        qed
        moreover have "val \<le> v" using \<open>val < v\<close> by (rule less_imp_le)
        ultimately have "best \<le> v" by (rule order_trans)
        with yv \<open>val < v\<close> show ?thesis by (simp add: max_absorb2 less_imp_le)
      qed
    qed
    have child: "\<exists>v. f m' a b = Inr v \<and> within a b v y'"
      if "m' \<in> set ms" "a < b" "g m' = Inr y'" for m' a b y'
      using Cons.prems(1) [of m' a b y'] that by simp
    have ih: "\<exists>r. ab_max_loop f ms (max val v) (max \<alpha> (max val v)) \<beta> = Inr r \<and>
      within \<alpha>0 \<beta> r x"
    proof (rule Cons.IH [where best = "max best y"])
      show "max_loop g ms (max best y) = Inr x" by (fact rest)
      show "max \<alpha> (max val v) < \<beta>" by (fact 1)
      show "max \<alpha> (max val v) = max \<alpha>0 (max val v)" by (fact 2)
      show "max val v \<le> \<alpha>0 \<longrightarrow> max best y \<le> max val v" by (fact 3)
      show "\<alpha>0 < max val v \<longrightarrow> max best y = max val v" by (fact 4)
    qed (rule child)
    have nb: "(\<beta> \<le> max \<alpha> (max val v)) = False" using False by simp
    show ?thesis unfolding step nb if_False by (rule ih)
  qed
qed



lemma ab_min_loop_within:
  assumes "\<And>m a b y. m \<in> set ms \<Longrightarrow> a < b \<Longrightarrow> g m = Inr y \<Longrightarrow>
             \<exists>v. f m a b = Inr v \<and> within a b v y"
    and "min_loop g ms best = Inr x"
    and "\<alpha> < \<beta>" and "\<beta> = min \<beta>0 val"
    and "\<beta>0 \<le> val \<longrightarrow> val \<le> best" and "val < \<beta>0 \<longrightarrow> best = val"
  shows "\<exists>v. ab_min_loop f ms val \<alpha> \<beta> = Inr v \<and> within \<alpha> \<beta>0 v x"
  using assms
proof (induction ms arbitrary: val \<beta> best)
  case Nil
  then show ?case by (auto simp: within_def)
next
  case (Cons m ms)
  from Cons.prems(2) obtain y where y: "g m = Inr y"
    and rest: "min_loop g ms (min best y) = Inr x"
    by (auto simp: if_less_min split: sum.splits)
  from Cons.prems(1) [OF _ Cons.prems(3) y] obtain v
    where v: "f m \<alpha> \<beta> = Inr v" and w: "within \<alpha> \<beta> v y" by auto
  have step: "ab_min_loop f (m # ms) val \<alpha> \<beta> =
      (if min \<beta> (min val v) \<le> \<alpha> then Inr (min val v)
       else ab_min_loop f ms (min val v) \<alpha> (min \<beta> (min val v)))"
    using v by (simp add: Let_def if_less_min)
  have b0: "\<beta> \<le> \<beta>0" "\<beta> \<le> val" using Cons.prems(4) by simp_all
  show ?case
  proof (cases "min \<beta> (min val v) \<le> \<alpha>")
    case True
    from min_loop_mono [OF rest] have "x \<le> y" by simp
    have "\<alpha> < val" using Cons.prems(3) b0(2) by (rule less_le_trans)
    have "v \<le> \<alpha>" using True Cons.prems(3) \<open>\<alpha> < val\<close>
      by (auto simp: min_le_iff_disj dest: leD)
    with w have "y \<le> v" by (simp add: within_def)
    with \<open>x \<le> y\<close> have "x \<le> v" by (rule order_trans)
    have "v < val" using \<open>v \<le> \<alpha>\<close> \<open>\<alpha> < val\<close> by (rule le_less_trans)
    then have mv: "min val v = v" by (simp add: min_absorb2 less_imp_le)
    have "v < \<beta>0"
      using le_less_trans [OF \<open>v \<le> \<alpha>\<close> Cons.prems(3)] b0(1) by (rule less_le_trans)
    then have "within \<alpha> \<beta>0 v x"
      unfolding within_def using \<open>x \<le> v\<close> \<open>v \<le> \<alpha>\<close> by (auto dest: leD)
    with True step mv show ?thesis by simp
  next
    case False
    then have 1: "\<alpha> < min \<beta> (min val v)" by (simp add: not_le)
    have 2: "min \<beta> (min val v) = min \<beta>0 (min val v)"
      unfolding Cons.prems(4) by (simp only: min.assoc min.left_idem)
    have va: "\<alpha> < v" using 1 by simp
    have 3: "\<beta>0 \<le> min val v \<longrightarrow> min val v \<le> min best y"
    proof
      assume a: "\<beta>0 \<le> min val v"
      then have "\<beta>0 \<le> val" "\<beta>0 \<le> v" by simp_all
      then have "\<beta> = \<beta>0" using Cons.prems(4) by (simp add: min_absorb1)
      with \<open>\<beta>0 \<le> v\<close> w have "v \<le> y" by (simp add: within_def)
      moreover have "val \<le> best" using Cons.prems(5) \<open>\<beta>0 \<le> val\<close> by simp
      ultimately show "min val v \<le> min best y" by (auto simp: min_le_iff_disj)
    qed
    have 4: "min val v < \<beta>0 \<longrightarrow> min best y = min val v"
    proof
      assume a: "min val v < \<beta>0"
      show "min best y = min val v"
      proof (cases "\<beta> \<le> v")
        case True
        with w have vy: "v \<le> y" by (simp add: within_def)
        have "val < \<beta>0"
        proof (rule ccontr)
          assume "\<not> val < \<beta>0"
          then have "\<beta>0 \<le> val" by (simp add: not_less)
          then have "\<beta> = \<beta>0" using Cons.prems(4) by (simp add: min_absorb1)
          with True \<open>\<beta>0 \<le> val\<close> have "\<beta>0 \<le> min val v" by simp
          with a show False by (simp add: not_le [symmetric])
        qed
        then have bv: "best = val" and "\<beta> = val"
          using Cons.prems(4,6) by (simp_all add: min_absorb2 less_imp_le)
        with True have "val \<le> v" by simp
        then have "val \<le> y" using vy by (rule order_trans)
        with bv \<open>val \<le> v\<close> show ?thesis by (simp add: min_absorb1)
      next
        case False
        then have vb: "v < \<beta>" by (simp add: not_le)
        with va w have yv: "y = v" by (simp add: within_def)
        have "v < val" using vb b0(2) by (rule less_le_trans)
        have "val \<le> best"
        proof (cases "\<beta>0 \<le> val")
          case True
          with Cons.prems(5) show ?thesis by simp
        next
          case False
          then have "val < \<beta>0" by (simp add: not_le)
          with Cons.prems(6) show ?thesis by simp
        qed
        have "v \<le> val" using \<open>v < val\<close> by (rule less_imp_le)
        then have "v \<le> best" using \<open>val \<le> best\<close> by (rule order_trans)
        with yv \<open>v < val\<close> show ?thesis by (simp add: min_absorb2 less_imp_le)
      qed
    qed
    have child: "\<exists>v. f m' a b = Inr v \<and> within a b v y'"
      if "m' \<in> set ms" "a < b" "g m' = Inr y'" for m' a b y'
      using Cons.prems(1) [of m' a b y'] that by simp
    have ih: "\<exists>r. ab_min_loop f ms (min val v) \<alpha> (min \<beta> (min val v)) = Inr r \<and>
      within \<alpha> \<beta>0 r x"
    proof (rule Cons.IH [where best = "min best y"])
      show "min_loop g ms (min best y) = Inr x" by (fact rest)
      show "\<alpha> < min \<beta> (min val v)" by (fact 1)
      show "min \<beta> (min val v) = min \<beta>0 (min val v)" by (fact 2)
      show "\<beta>0 \<le> min val v \<longrightarrow> min val v \<le> min best y" by (fact 3)
      show "min val v < \<beta>0 \<longrightarrow> min best y = min val v" by (fact 4)
    qed (rule child)
    have nb: "(min \<beta> (min val v) \<le> \<alpha>) = False" using False by simp
    show ?thesis unfolding step nb if_False by (rule ih)
  qed
qed


lemma within_refl: "within a b v v"
  by (simp add: within_def)

lemma minimax_unfold:
  assumes "evaluate b = Inr s" "\<not> (d = MAX_DEPTH \<or> s \<noteq> 0)" "get_valid_moves b d = Inr ms"
  shows "minimax b d p =
    (if d mod 2 = 0 then
       max_loop (\<lambda>m. case make_move b m 1 of Inl e \<Rightarrow> Inl e
                      | Inr child \<Rightarrow> minimax child (d + 1) (p @ [m])) ms NegInf
     else
       min_loop (\<lambda>m. case make_move b m (- 1) of Inl e \<Rightarrow> Inl e
                      | Inr child \<Rightarrow> minimax child (d + 1) (p @ [m])) ms PosInf)"
  using assms by (subst minimax.simps) simp

lemma alphabeta_unfold:
  assumes "evaluate b = Inr s" "\<not> (d = MAX_DEPTH \<or> s \<noteq> 0)" "get_valid_moves b d = Inr ms"
  shows "alphabeta b d p al be =
    (if d mod 2 = 0 then
       ab_max_loop (\<lambda>m alpha beta. case make_move b m 1 of Inl e \<Rightarrow> Inl e
                      | Inr child \<Rightarrow> alphabeta child (d + 1) (p @ [m]) alpha beta)
         ms NegInf al be
     else
       ab_min_loop (\<lambda>m alpha beta. case make_move b m (- 1) of Inl e \<Rightarrow> Inl e
                      | Inr child \<Rightarrow> alphabeta child (d + 1) (p @ [m]) alpha beta)
         ms PosInf al be)"
  using assms by (subst alphabeta.simps) simp

lemma minimax_Inr_evaluate: "minimax b d p = Inr x \<Longrightarrow> \<exists>s. evaluate b = Inr s"
  by (subst (asm) minimax.simps) (simp split: sum.splits)

lemma minimax_Inr_moves:
  "minimax b d p = Inr x \<Longrightarrow> evaluate b = Inr s \<Longrightarrow> \<not> (d = MAX_DEPTH \<or> s \<noteq> 0) \<Longrightarrow>
   \<exists>ms. get_valid_moves b d = Inr ms"
  by (subst (asm) minimax.simps) (simp split: sum.splits if_splits)

lemma alphabeta_within:
  "al < be \<Longrightarrow> minimax b d p = Inr x \<Longrightarrow>
   \<exists>v. alphabeta b d p al be = Inr v \<and> within al be v x"
proof (induction b d p al be arbitrary: x rule: alphabeta.induct)
  case (1 board depth path alpha beta)
  from minimax_Inr_evaluate [OF "1.prems"(2)] obtain s where ev: "evaluate board = Inr s" ..
  show ?case
  proof (cases "depth = MAX_DEPTH \<or> s \<noteq> 0")
    case True
    from minimax_terminal [OF ev True, of path] "1.prems"(2) have "x = Fin s" by simp
    with alphabeta_terminal [OF ev True, of path alpha beta] show ?thesis
      by (simp add: within_refl)
  next
    case False
    from minimax_Inr_moves [OF "1.prems"(2) ev False]
    obtain ms where ms: "get_valid_moves board depth = Inr ms" ..
    note mm = minimax_unfold [OF ev False ms, of path]
    note ab = alphabeta_unfold [OF ev False ms, of path alpha beta]
    show ?thesis
    proof (cases "depth mod 2 = 0")
      case True
      let ?g = "\<lambda>m. case make_move board m 1 of Inl e \<Rightarrow> Inl e
                     | Inr child \<Rightarrow> minimax child (depth + 1) (path @ [m])"
      let ?f = "\<lambda>m alpha beta. case make_move board m 1 of Inl e \<Rightarrow> Inl e
                     | Inr child \<Rightarrow> alphabeta child (depth + 1) (path @ [m]) alpha beta"
      have loop: "max_loop ?g ms NegInf = Inr x" using mm True "1.prems"(2) by simp
      have child: "\<exists>v. ?f m a b = Inr v \<and> within a b v y"
        if "m \<in> set ms" "a < b" "?g m = Inr y" for m a b y
      proof -
        from that(3) obtain c where c: "make_move board m 1 = Inr c"
          and y: "minimax c (depth + 1) (path @ [m]) = Inr y"
          by (auto split: sum.splits)
        have "\<exists>v. alphabeta c (depth + 1) (path @ [m]) a b = Inr v \<and> within a b v y"
          using ev False True ms that(1) c that(2) y by (rule "1.IH"(1))
        with c show ?thesis by simp
      qed
      have "\<exists>v. ab_max_loop ?f ms NegInf alpha beta = Inr v \<and> within alpha beta v x"
      proof (rule ab_max_loop_within [where g = ?g and best = NegInf])
        show "max_loop ?g ms NegInf = Inr x" by (fact loop)
        show "alpha < beta" by (fact "1.prems"(1))
        show "alpha = max alpha NegInf" by (simp add: max_absorb1)
        show "NegInf \<le> alpha \<longrightarrow> NegInf \<le> NegInf" by simp
        show "alpha < NegInf \<longrightarrow> NegInf = NegInf" by simp
      qed (rule child)
      with ab True show ?thesis by simp
    next
      case odd: False
      let ?g = "\<lambda>m. case make_move board m (- 1) of Inl e \<Rightarrow> Inl e
                     | Inr child \<Rightarrow> minimax child (depth + 1) (path @ [m])"
      let ?f = "\<lambda>m alpha beta. case make_move board m (- 1) of Inl e \<Rightarrow> Inl e
                     | Inr child \<Rightarrow> alphabeta child (depth + 1) (path @ [m]) alpha beta"
      have loop: "min_loop ?g ms PosInf = Inr x" using mm odd "1.prems"(2) by simp
      have child: "\<exists>v. ?f m a b = Inr v \<and> within a b v y"
        if "m \<in> set ms" "a < b" "?g m = Inr y" for m a b y
      proof -
        from that(3) obtain c where c: "make_move board m (- 1) = Inr c"
          and y: "minimax c (depth + 1) (path @ [m]) = Inr y"
          by (auto split: sum.splits)
        have "\<exists>v. alphabeta c (depth + 1) (path @ [m]) a b = Inr v \<and> within a b v y"
          using ev False odd ms that(1) c that(2) y by (rule "1.IH"(2))
        with c show ?thesis by simp
      qed
      have "\<exists>v. ab_min_loop ?f ms PosInf alpha beta = Inr v \<and> within alpha beta v x"
      proof (rule ab_min_loop_within [where g = ?g and best = PosInf])
        show "min_loop ?g ms PosInf = Inr x" by (fact loop)
        show "alpha < beta" by (fact "1.prems"(1))
        show "beta = min beta PosInf" by (simp add: min_absorb1)
        show "beta \<le> PosInf \<longrightarrow> PosInf \<le> PosInf" by simp
        show "PosInf < beta \<longrightarrow> PosInf = PosInf" by simp
      qed (rule child)
      with ab odd show ?thesis by simp
    qed
  qed
qed

lemma alphabeta_eq_minimax:
  assumes "minimax b d p = Inr x"
  shows "alphabeta b d p NegInf PosInf = Inr x"
proof -
  have "NegInf < PosInf" by simp
  from alphabeta_within [OF this assms] obtain v
    where "alphabeta b d p NegInf PosInf = Inr v" "within NegInf PosInf v x" by auto
  with within_full [of v x] show ?thesis by simp
qed

subsection \<open>The searches return on a well-formed board\<close>

lemma max_loop_total:
  "(\<And>m. m \<in> set ms \<Longrightarrow> \<exists>y. g m = Inr y) \<Longrightarrow> \<exists>x. max_loop g ms best = Inr x"
proof (induction ms arbitrary: best)
  case Nil
  then show ?case by simp
next
  case (Cons m ms)
  from Cons.prems [of m] obtain y where y: "g m = Inr y" by auto
  have "\<exists>x. max_loop g ms (if y > best then y else best) = Inr x"
    by (rule Cons.IH) (simp add: Cons.prems)
  with y show ?case by simp
qed

lemma min_loop_total:
  "(\<And>m. m \<in> set ms \<Longrightarrow> \<exists>y. g m = Inr y) \<Longrightarrow> \<exists>x. min_loop g ms best = Inr x"
proof (induction ms arbitrary: best)
  case Nil
  then show ?case by simp
next
  case (Cons m ms)
  from Cons.prems [of m] obtain y where y: "g m = Inr y" by auto
  have "\<exists>x. min_loop g ms (if y < best then y else best) = Inr x"
    by (rule Cons.IH) (simp add: Cons.prems)
  with y show ?case by simp
qed

lemma minimax_total: "wf_board b \<Longrightarrow> \<exists>x. minimax b d p = Inr x"
proof (induction b d p rule: minimax.induct)
  case (1 board depth path)
  from evaluate_wf [OF "1.prems"] obtain s where ev: "evaluate board = Inr s" ..
  show ?case
  proof (cases "depth = MAX_DEPTH \<or> s \<noteq> 0")
    case True
    from minimax_terminal [OF ev True] show ?thesis by simp
  next
    case False
    from get_valid_moves_wf [OF "1.prems", of depth]
    obtain ms where ms: "get_valid_moves board depth = Inr ms" by simp
    note mm = minimax_unfold [OF ev False ms, of path]
    show ?thesis
    proof (cases "depth mod 2 = 0")
      case True
      have "\<exists>x. max_loop (\<lambda>m. case make_move board m 1 of Inl e \<Rightarrow> Inl e
                | Inr child \<Rightarrow> minimax child (depth + 1) (path @ [m])) ms NegInf = Inr x"
      proof (rule max_loop_total)
        fix m assume m: "m \<in> set ms"
        from child_wf [OF "1.prems" ms m, of 1] obtain c
          where c: "make_move board m 1 = Inr c" and wf: "wf_board c" by auto
        have "\<exists>y. minimax c (depth + 1) (path @ [m]) = Inr y"
          using ev False True ms m c wf by (rule "1.IH"(1))
        with c show "\<exists>y. (case make_move board m 1 of Inl e \<Rightarrow> Inl e
                | Inr child \<Rightarrow> minimax child (depth + 1) (path @ [m])) = Inr y" by simp
      qed
      with mm True show ?thesis by simp
    next
      case odd: False
      have "\<exists>x. min_loop (\<lambda>m. case make_move board m (- 1) of Inl e \<Rightarrow> Inl e
                | Inr child \<Rightarrow> minimax child (depth + 1) (path @ [m])) ms PosInf = Inr x"
      proof (rule min_loop_total)
        fix m assume m: "m \<in> set ms"
        from child_wf [OF "1.prems" ms m, of "- 1"] obtain c
          where c: "make_move board m (- 1) = Inr c" and wf: "wf_board c" by auto
        have "\<exists>y. minimax c (depth + 1) (path @ [m]) = Inr y"
          using ev False odd ms m c wf by (rule "1.IH"(2))
        with c show "\<exists>y. (case make_move board m (- 1) of Inl e \<Rightarrow> Inl e
                | Inr child \<Rightarrow> minimax child (depth + 1) (path @ [m])) = Inr y" by simp
      qed
      with mm odd show ?thesis by simp
    qed
  qed
qed

text \<open>
  C1. Whenever \<open>minimax\<close> returns a value on a board, at any depth, \<open>alphabeta\<close> called on
  the same board and depth with the window \<open>(-\<infinity>, +\<infinity>)\<close> returns the same value; on a
  well-formed board both return.
\<close>

theorem alphabeta_equals_minimax:
  "(\<forall>x. minimax board depth path = Inr x \<longrightarrow>
        alphabeta board depth path NegInf PosInf = Inr x) \<and>
   (wf_board board \<longrightarrow>
      (\<exists>x. minimax board depth path = Inr x \<and>
           alphabeta board depth path NegInf PosInf = Inr x))"
  using alphabeta_eq_minimax [of board depth path] minimax_total [of board depth path]
  by blast

theorem alphabeta_equals_minimax_witness:
  "minimax create_initial_board 0 [] = Inr (Fin 100) \<and>
   alphabeta create_initial_board 0 [] NegInf PosInf = Inr (Fin 100)"
  using alphabeta_equals_minimax [of create_initial_board 0 "[]"] minimax_initial
  by simp

subsection \<open>Running maximum and minimum of the child values\<close>

lemma foldl_max_Max: "foldl max a xs = Max (set (a # xs))"
proof -
  have "(\<lambda>x s. max s x) = (max :: 'a::linorder \<Rightarrow> 'a \<Rightarrow> 'a)"
    by (intro ext) (rule max.commute)
  then have "foldl max a xs = fold max xs a" by (simp add: foldl_conv_fold)
  then show ?thesis by (simp only: Max.set_eq_fold)
qed

lemma foldl_min_Min: "foldl min a xs = Min (set (a # xs))"
proof -
  have "(\<lambda>x s. min s x) = (min :: 'a::linorder \<Rightarrow> 'a \<Rightarrow> 'a)"
    by (intro ext) (rule min.commute)
  then have "foldl min a xs = fold min xs a" by (simp add: foldl_conv_fold)
  then show ?thesis by (simp only: Min.set_eq_fold)
qed






lemma collect_ab_max_loop_inv:
  assumes "collect_ab_max_loop f ms ns val cvs ex pr \<alpha> \<beta> = Inr (ns', val', cvs', ex', pr', \<alpha>', \<beta>')"
    and "\<And>m a cn y. m \<in> set ms \<Longrightarrow> a < \<beta> \<Longrightarrow> f m a \<beta> = Inr (cn, y) \<Longrightarrow>
           (\<forall>n \<in> set cn. G n) \<and> R y"
    and "\<forall>n \<in> set ns. G n" and "\<forall>y \<in> set cvs. R y" and "val = foldl max NegInf cvs"
    and "\<alpha> < \<beta>" and "val \<le> \<alpha>"
  shows "(\<forall>n \<in> set ns'. G n) \<and> (\<forall>y \<in> set cvs'. R y) \<and> val' = foldl max NegInf cvs' \<and>
         val \<le> val' \<and> \<beta>' = \<beta> \<and> \<alpha>' = max \<alpha> val' \<and> pr' = (pr \<or> \<beta> \<le> \<alpha>') \<and>
         (\<exists>k\<le>length ms. ex' = ex @ take k ms \<and> length cvs' = length cvs + k \<and>
            (k < length ms \<longrightarrow> pr') \<and> (ms \<noteq> [] \<longrightarrow> 0 < k))"
  using assms
proof (induction ms arbitrary: ns val cvs ex \<alpha>)
  case Nil
  then show ?case by (auto simp: max_absorb1 not_le)
next
  case (Cons m ms)
  from Cons.prems(1) obtain cn y where fm: "f m \<alpha> \<beta> = Inr (cn, y)"
    by (auto split: sum.splits)
  from Cons.prems(2) [of m _ cn y] fm Cons.prems(6) have c: "\<forall>n \<in> set cn. G n" "R y"
    by simp_all
  have step: "collect_ab_max_loop f (m # ms) ns val cvs ex pr \<alpha> \<beta> =
      (if \<beta> \<le> max \<alpha> (max val y) then Inr (ns @ cn, max val y, cvs @ [y], ex @ [m], True, max \<alpha> (max val y), \<beta>)
       else collect_ab_max_loop f ms (ns @ cn) (max val y) (cvs @ [y]) (ex @ [m]) pr (max \<alpha> (max val y)) \<beta>)"
    using fm by (simp add: Let_def if_less_max)
  have g: "\<forall>n \<in> set (ns @ cn). G n" using Cons.prems(3) c(1) by auto
  have r: "\<forall>y \<in> set (cvs @ [y]). R y" using Cons.prems(4) c(2) by auto
  have v: "max val y = foldl max NegInf (cvs @ [y])" using Cons.prems(5) by simp
  show ?case
  proof (cases "\<beta> \<le> max \<alpha> (max val y)")
    case True
    with Cons.prems(1) step have res: "ns' = ns @ cn" "val' = max val y" "cvs' = cvs @ [y]"
      "ex' = ex @ [m]" "pr' = True" "(\<alpha>', \<beta>') = (max \<alpha> (max val y), \<beta>)" by simp_all
    have k: "\<exists>k\<le>length (m # ms). ex' = ex @ take k (m # ms) \<and>
        length cvs' = length cvs + k \<and> (k < length (m # ms) \<longrightarrow> pr') \<and> (m # ms \<noteq> [] \<longrightarrow> 0 < k)"
      using res by (intro exI [of _ 1]) simp
    have a1: "\<forall>n \<in> set ns'. G n" using g res(1) by simp
    have a2: "\<forall>y \<in> set cvs'. R y" using r res(3) by simp
    have a3: "val' = foldl max NegInf cvs'" using v res(2,3) by simp
    have a4: "val \<le> val'" using res(2) by simp
    have a5: "\<beta>' = \<beta> \<and> \<alpha>' = max \<alpha> val'" using res(2,6) by simp
    have a6: "pr' = (pr \<or> \<beta> \<le> \<alpha>')" using True res(2,5,6) by simp
    from a1 a2 a3 a4 a5 a6 k show ?thesis by simp
  next
    case False
    with Cons.prems(1) step
    have rest: "collect_ab_max_loop f ms (ns @ cn) (max val y) (cvs @ [y]) (ex @ [m]) pr (max \<alpha> (max val y)) \<beta> =
        Inr (ns', val', cvs', ex', pr', \<alpha>', \<beta>')" by simp
    have w: "max \<alpha> (max val y) < \<beta>" using False by (simp add: not_le)
    have ih: "(\<forall>n \<in> set ns'. G n) \<and> (\<forall>y \<in> set cvs'. R y) \<and> val' = foldl max NegInf cvs' \<and>
         max val y \<le> val' \<and> \<beta>' = \<beta> \<and> \<alpha>' = max (max \<alpha> (max val y)) val' \<and> pr' = (pr \<or> \<beta> \<le> \<alpha>') \<and>
         (\<exists>k\<le>length ms. ex' = (ex @ [m]) @ take k ms \<and> length cvs' = length (cvs @ [y]) + k \<and>
            (k < length ms \<longrightarrow> pr') \<and> (ms \<noteq> [] \<longrightarrow> 0 < k))"
    proof (rule Cons.IH [OF rest _ g r v])
      show "max \<alpha> (max val y) < \<beta>" by (fact w)
      show "max val y \<le> max \<alpha> (max val y)" by (rule max.cobounded2)
    next
      fix m' a cn' y'
      assume "m' \<in> set ms" "a < \<beta>" "f m' a \<beta> = Inr (cn', y')"
      then show "(\<forall>n \<in> set cn'. G n) \<and> R y'"
        using Cons.prems(2) [of m' a cn' y'] TrueI by simp
    qed
    then obtain k where k: "k \<le> length ms" "ex' = (ex @ [m]) @ take k ms"
      "length cvs' = length (cvs @ [y]) + k" "k < length ms \<longrightarrow> pr'" by blast
    have k': "\<exists>k\<le>length (m # ms). ex' = ex @ take k (m # ms) \<and>
        length cvs' = length cvs + k \<and> (k < length (m # ms) \<longrightarrow> pr') \<and> (m # ms \<noteq> [] \<longrightarrow> 0 < k)"
      using k by (intro exI [of _ "Suc k"]) simp
    note c2 = conjunct2
    note b1 = ih [THEN conjunct1]
    note b2 = ih [THEN c2, THEN conjunct1]
    note b3 = ih [THEN c2, THEN c2, THEN conjunct1]
    note mono1 = ih [THEN c2, THEN c2, THEN c2, THEN conjunct1]
    note w1 = ih [THEN c2, THEN c2, THEN c2, THEN c2, THEN conjunct1]
    note w2 = ih [THEN c2, THEN c2, THEN c2, THEN c2, THEN c2, THEN conjunct1]
    note b6 = ih [THEN c2, THEN c2, THEN c2, THEN c2, THEN c2, THEN c2, THEN conjunct1]
    have mono: "val \<le> val'" using max.cobounded1 mono1 by (rule order_trans)
    have w2': "\<alpha>' = max \<alpha> val'"
      unfolding w2 by (simp only: max.assoc [of \<alpha> "max val y" val'] max_absorb2 [OF mono1])
    from b1 b2 b3 mono w1 w2' b6 k' show ?thesis by simp
  qed
qed

lemma collect_ab_min_loop_inv:
  assumes "collect_ab_min_loop f ms ns val cvs ex pr \<alpha> \<beta> = Inr (ns', val', cvs', ex', pr', \<alpha>', \<beta>')"
    and "\<And>m b cn y. m \<in> set ms \<Longrightarrow> \<alpha> < b \<Longrightarrow> f m \<alpha> b = Inr (cn, y) \<Longrightarrow>
           (\<forall>n \<in> set cn. G n) \<and> R y"
    and "\<forall>n \<in> set ns. G n" and "\<forall>y \<in> set cvs. R y" and "val = foldl min PosInf cvs"
    and "\<alpha> < \<beta>" and "\<beta> \<le> val"
  shows "(\<forall>n \<in> set ns'. G n) \<and> (\<forall>y \<in> set cvs'. R y) \<and> val' = foldl min PosInf cvs' \<and>
         val' \<le> val \<and> \<alpha>' = \<alpha> \<and> \<beta>' = min \<beta> val' \<and> pr' = (pr \<or> \<beta>' \<le> \<alpha>) \<and>
         (\<exists>k\<le>length ms. ex' = ex @ take k ms \<and> length cvs' = length cvs + k \<and>
            (k < length ms \<longrightarrow> pr') \<and> (ms \<noteq> [] \<longrightarrow> 0 < k))"
  using assms
proof (induction ms arbitrary: ns val cvs ex \<beta>)
  case Nil
  then show ?case by (auto simp: min_absorb1 not_le)
next
  case (Cons m ms)
  from Cons.prems(1) obtain cn y where fm: "f m \<alpha> \<beta> = Inr (cn, y)"
    by (auto split: sum.splits)
  from Cons.prems(2) [of m _ cn y] fm Cons.prems(6) have c: "\<forall>n \<in> set cn. G n" "R y"
    by simp_all
  have step: "collect_ab_min_loop f (m # ms) ns val cvs ex pr \<alpha> \<beta> =
      (if min \<beta> (min val y) \<le> \<alpha> then Inr (ns @ cn, min val y, cvs @ [y], ex @ [m], True, \<alpha>, min \<beta> (min val y))
       else collect_ab_min_loop f ms (ns @ cn) (min val y) (cvs @ [y]) (ex @ [m]) pr \<alpha> (min \<beta> (min val y)))"
    using fm by (simp add: Let_def if_less_min)
  have g: "\<forall>n \<in> set (ns @ cn). G n" using Cons.prems(3) c(1) by auto
  have r: "\<forall>y \<in> set (cvs @ [y]). R y" using Cons.prems(4) c(2) by auto
  have v: "min val y = foldl min PosInf (cvs @ [y])" using Cons.prems(5) by simp
  show ?case
  proof (cases "min \<beta> (min val y) \<le> \<alpha>")
    case True
    with Cons.prems(1) step have res: "ns' = ns @ cn" "val' = min val y" "cvs' = cvs @ [y]"
      "ex' = ex @ [m]" "pr' = True" "(\<alpha>', \<beta>') = (\<alpha>, min \<beta> (min val y))" by simp_all
    have k: "\<exists>k\<le>length (m # ms). ex' = ex @ take k (m # ms) \<and>
        length cvs' = length cvs + k \<and> (k < length (m # ms) \<longrightarrow> pr') \<and> (m # ms \<noteq> [] \<longrightarrow> 0 < k)"
      using res by (intro exI [of _ 1]) simp
    have a1: "\<forall>n \<in> set ns'. G n" using g res(1) by simp
    have a2: "\<forall>y \<in> set cvs'. R y" using r res(3) by simp
    have a3: "val' = foldl min PosInf cvs'" using v res(2,3) by simp
    have a4: "val' \<le> val" using res(2) by simp
    have a5: "\<alpha>' = \<alpha> \<and> \<beta>' = min \<beta> val'" using res(2,6) by simp
    have a6: "pr' = (pr \<or> \<beta>' \<le> \<alpha>)" using True res(2,5,6) by simp
    from a1 a2 a3 a4 a5 a6 k show ?thesis by simp
  next
    case False
    with Cons.prems(1) step
    have rest: "collect_ab_min_loop f ms (ns @ cn) (min val y) (cvs @ [y]) (ex @ [m]) pr \<alpha> (min \<beta> (min val y)) =
        Inr (ns', val', cvs', ex', pr', \<alpha>', \<beta>')" by simp
    have w: "\<alpha> < min \<beta> (min val y)" using False by (simp add: not_le)
    have ih: "(\<forall>n \<in> set ns'. G n) \<and> (\<forall>y \<in> set cvs'. R y) \<and> val' = foldl min PosInf cvs' \<and>
         val' \<le> min val y \<and> \<alpha>' = \<alpha> \<and> \<beta>' = min (min \<beta> (min val y)) val' \<and> pr' = (pr \<or> \<beta>' \<le> \<alpha>) \<and>
         (\<exists>k\<le>length ms. ex' = (ex @ [m]) @ take k ms \<and> length cvs' = length (cvs @ [y]) + k \<and>
            (k < length ms \<longrightarrow> pr') \<and> (ms \<noteq> [] \<longrightarrow> 0 < k))"
    proof (rule Cons.IH [OF rest _ g r v])
      show "\<alpha> < min \<beta> (min val y)" by (fact w)
      show "min \<beta> (min val y) \<le> min val y" by (rule min.cobounded2)
    next
      fix m' b cn' y'
      assume "m' \<in> set ms" "\<alpha> < b" "f m' \<alpha> b = Inr (cn', y')"
      then show "(\<forall>n \<in> set cn'. G n) \<and> R y'"
        using Cons.prems(2) [of m' b cn' y'] TrueI by simp
    qed
    then obtain k where k: "k \<le> length ms" "ex' = (ex @ [m]) @ take k ms"
      "length cvs' = length (cvs @ [y]) + k" "k < length ms \<longrightarrow> pr'" by blast
    have k': "\<exists>k\<le>length (m # ms). ex' = ex @ take k (m # ms) \<and>
        length cvs' = length cvs + k \<and> (k < length (m # ms) \<longrightarrow> pr') \<and> (m # ms \<noteq> [] \<longrightarrow> 0 < k)"
      using k by (intro exI [of _ "Suc k"]) simp
    note c2 = conjunct2
    note b1 = ih [THEN conjunct1]
    note b2 = ih [THEN c2, THEN conjunct1]
    note b3 = ih [THEN c2, THEN c2, THEN conjunct1]
    note mono1 = ih [THEN c2, THEN c2, THEN c2, THEN conjunct1]
    note w1 = ih [THEN c2, THEN c2, THEN c2, THEN c2, THEN conjunct1]
    note w2 = ih [THEN c2, THEN c2, THEN c2, THEN c2, THEN c2, THEN conjunct1]
    note b6 = ih [THEN c2, THEN c2, THEN c2, THEN c2, THEN c2, THEN c2, THEN conjunct1]
    have mono: "val' \<le> val" using mono1 min.cobounded1 by (rule order_trans)
    have w2': "\<beta>' = min \<beta> val'"
      unfolding w2 by (simp only: min.assoc [of \<beta> "min val y" val'] min_absorb2 [OF mono1])
    from b1 b2 b3 mono w1 w2' b6 k' show ?thesis by simp
  qed
qed

section \<open>Node records\<close>

definition value_range :: "score set" where
  "value_range = {NegInf, Fin (- 100), Fin 0, Fin 100, PosInf}"

definition win_values :: "score set" where
  "win_values = {Fin (- 100), Fin 0, Fin 100}"

text \<open>
  What the collecting loops keep for an internal record: its value is the running maximum
  (minimum) of its recorded child values, started at \<open>-\<infinity>\<close> (\<open>+\<infinity>\<close>).
\<close>

definition aggregated :: "node \<Rightarrow> bool" where
  "aggregated n =
     (case n_type n of
        TerminalNode \<Rightarrow> True
      | MaxNode \<Rightarrow> (case n_children_values n of None \<Rightarrow> False
                   | Some cvs \<Rightarrow> n_value n = foldl max NegInf cvs)
      | MinNode \<Rightarrow> (case n_children_values n of None \<Rightarrow> False
                   | Some cvs \<Rightarrow> n_value n = foldl min PosInf cvs))"

text \<open>
  An internal record lists one child value for each move it explored: for every legal move
  in the Minimax records, for a prefix of the legal moves in the Alpha-Beta records, and
  for at least one move if there is one.
\<close>

definition children_recorded :: "node \<Rightarrow> bool" where
  "children_recorded n =
     (case n_type n of
        TerminalNode \<Rightarrow> True
      | _ \<Rightarrow> (case (n_moves n, n_children_values n) of
               (Some ms, Some cvs) \<Rightarrow>
                 (ms \<noteq> [] \<longrightarrow> cvs \<noteq> []) \<and>
                 (case n_explored_moves n of
                    None \<Rightarrow> length cvs = length ms
                  | Some ex \<Rightarrow> prefix ex ms \<and> length cvs = length ex)
             | _ \<Rightarrow> False))"

definition node_good :: "node \<Rightarrow> bool" where
  "node_good n = (n_value n \<in> value_range \<and>
     (n_type n = TerminalNode \<longrightarrow> n_value n \<in> win_values) \<and> aggregated n \<and>
     children_recorded n)"

lemma win_values_range: "y \<in> win_values \<Longrightarrow> y \<in> value_range"
  by (auto simp: win_values_def value_range_def)

lemma foldl_max_in: "foldl max (a::'a::linorder) xs \<in> insert a (set xs)"
  using Max_in [of "set (a # xs)"] by (simp add: foldl_max_Max)

lemma foldl_min_in: "foldl min (a::'a::linorder) xs \<in> insert a (set xs)"
  using Min_in [of "set (a # xs)"] by (simp add: foldl_min_Min)

lemma running_max_range:
  "\<forall>y \<in> set cvs. y \<in> value_range \<Longrightarrow> foldl max NegInf cvs \<in> value_range"
  using foldl_max_in [of NegInf cvs] by (auto simp: value_range_def)

lemma running_min_range:
  "\<forall>y \<in> set cvs. y \<in> value_range \<Longrightarrow> foldl min PosInf cvs \<in> value_range"
  using foldl_min_in [of PosInf cvs] by (auto simp: value_range_def)

lemma evaluate_win_values: "evaluate b = Inr s \<Longrightarrow> Fin s \<in> win_values"
  using evaluate_range [of b s] by (auto simp: win_values_def)

lemma collect_tree_nodes_Inr_evaluate:
  "collect_tree_nodes b d p nt = Inr r \<Longrightarrow> \<exists>s. evaluate b = Inr s"
  by (subst (asm) collect_tree_nodes.simps) (simp add: Let_def split: sum.splits)

lemma collect_alphabeta_tree_nodes_Inr_evaluate:
  "collect_alphabeta_tree_nodes b d p al be = Inr r \<Longrightarrow> \<exists>s. evaluate b = Inr s"
  by (subst (asm) collect_alphabeta_tree_nodes.simps) (simp add: Let_def split: sum.splits)

text \<open>The two internal branches of the collecting searches, with the loop result named.\<close>

lemma collect_tree_nodes_max:
  assumes "evaluate b = Inr s" "\<not> (d = MAX_DEPTH \<or> s \<noteq> 0)" "d mod 2 = 0"
    and "collect_tree_nodes b d p nt = Inr (nodes, v)"
  shows "\<exists>ms ns cvs. get_valid_moves b d = Inr ms \<and>
     collect_max_loop (\<lambda>m. case make_move b m 1 of Inl e \<Rightarrow> Inl e
        | Inr child \<Rightarrow> collect_tree_nodes child (d + 1) (p @ [m]) nt) ms [] NegInf [] =
       Inr (ns, v, cvs) \<and>
     nodes = ns @ [\<lparr>n_path = p, n_state = node_state d p, n_value = v, n_type = MaxNode,
        n_depth = d, n_children_values = Some cvs, n_moves = Some ms,
        n_explored_moves = None, n_pruned = None, n_alpha = None, n_beta = None\<rparr>]"
  using assms(4) unfolding collect_tree_nodes.simps [of b d p nt]
  using assms(1-3) by (auto simp: Let_def split: sum.splits)

lemma collect_tree_nodes_min:
  assumes "evaluate b = Inr s" "\<not> (d = MAX_DEPTH \<or> s \<noteq> 0)" "d mod 2 \<noteq> 0"
    and "collect_tree_nodes b d p nt = Inr (nodes, v)"
  shows "\<exists>ms ns cvs. get_valid_moves b d = Inr ms \<and>
     collect_min_loop (\<lambda>m. case make_move b m (- 1) of Inl e \<Rightarrow> Inl e
        | Inr child \<Rightarrow> collect_tree_nodes child (d + 1) (p @ [m]) nt) ms [] PosInf [] =
       Inr (ns, v, cvs) \<and>
     nodes = ns @ [\<lparr>n_path = p, n_state = node_state d p, n_value = v, n_type = MinNode,
        n_depth = d, n_children_values = Some cvs, n_moves = Some ms,
        n_explored_moves = None, n_pruned = None, n_alpha = None, n_beta = None\<rparr>]"
  using assms(4) unfolding collect_tree_nodes.simps [of b d p nt]
  using assms(1-3) by (auto simp: Let_def split: sum.splits)

lemma collect_alphabeta_tree_nodes_max:
  assumes "evaluate b = Inr s" "\<not> (d = MAX_DEPTH \<or> s \<noteq> 0)" "d mod 2 = 0"
    and "collect_alphabeta_tree_nodes b d p al be = Inr (nodes, v)"
  shows "\<exists>ms ns cvs ex pr al' be'. get_valid_moves b d = Inr ms \<and>
     collect_ab_max_loop (\<lambda>m alpha beta. case make_move b m 1 of Inl e \<Rightarrow> Inl e
        | Inr child \<Rightarrow> collect_alphabeta_tree_nodes child (d + 1) (p @ [m]) alpha beta)
        ms [] NegInf [] [] False al be = Inr (ns, v, cvs, ex, pr, al', be') \<and>
     nodes = ns @ [\<lparr>n_path = p, n_state = node_state d p, n_value = v, n_type = MaxNode,
        n_depth = d, n_children_values = Some cvs, n_moves = Some ms,
        n_explored_moves = Some ex, n_pruned = Some pr, n_alpha = Some al',
        n_beta = Some be'\<rparr>]"
  using assms(4) unfolding collect_alphabeta_tree_nodes.simps [of b d p al be]
  using assms(1-3) by (auto simp: Let_def split: sum.splits)

lemma collect_alphabeta_tree_nodes_min:
  assumes "evaluate b = Inr s" "\<not> (d = MAX_DEPTH \<or> s \<noteq> 0)" "d mod 2 \<noteq> 0"
    and "collect_alphabeta_tree_nodes b d p al be = Inr (nodes, v)"
  shows "\<exists>ms ns cvs ex pr al' be'. get_valid_moves b d = Inr ms \<and>
     collect_ab_min_loop (\<lambda>m alpha beta. case make_move b m (- 1) of Inl e \<Rightarrow> Inl e
        | Inr child \<Rightarrow> collect_alphabeta_tree_nodes child (d + 1) (p @ [m]) alpha beta)
        ms [] PosInf [] [] False al be = Inr (ns, v, cvs, ex, pr, al', be') \<and>
     nodes = ns @ [\<lparr>n_path = p, n_state = node_state d p, n_value = v, n_type = MinNode,
        n_depth = d, n_children_values = Some cvs, n_moves = Some ms,
        n_explored_moves = Some ex, n_pruned = Some pr, n_alpha = Some al',
        n_beta = Some be'\<rparr>]"
  using assms(4) unfolding collect_alphabeta_tree_nodes.simps [of b d p al be]
  using assms(1-3) by (auto simp: Let_def split: sum.splits)

text \<open>The loops as the searches start them, with the premise on the children as one formula.\<close>

lemma collect_ab_max_loop_root:
  assumes "collect_ab_max_loop f ms [] NegInf [] [] False \<alpha> \<beta> =
      Inr (ns', val', cvs', ex', pr', \<alpha>', \<beta>')"
    and "\<forall>m a cn y. m \<in> set ms \<longrightarrow> a < \<beta> \<longrightarrow> f m a \<beta> = Inr (cn, y) \<longrightarrow>
           (\<forall>n \<in> set cn. G n) \<and> R y"
    and "\<alpha> < \<beta>"
  shows "(\<forall>n \<in> set ns'. G n) \<and> (\<forall>y \<in> set cvs'. R y) \<and> val' = foldl max NegInf cvs' \<and>
         \<beta>' = \<beta> \<and> \<alpha>' = max \<alpha> val' \<and> pr' = (\<beta> \<le> \<alpha>') \<and>
         prefix ex' ms \<and> length cvs' = length ex' \<and> (ex' \<noteq> ms \<longrightarrow> pr') \<and>
         (ms \<noteq> [] \<longrightarrow> cvs' \<noteq> [])"
proof -
  have inv: "(\<forall>n \<in> set ns'. G n) \<and> (\<forall>y \<in> set cvs'. R y) \<and> val' = foldl max NegInf cvs' \<and>
         NegInf \<le> val' \<and> \<beta>' = \<beta> \<and> \<alpha>' = max \<alpha> val' \<and> pr' = (False \<or> \<beta> \<le> \<alpha>') \<and>
         (\<exists>k\<le>length ms. ex' = [] @ take k ms \<and> length cvs' = length ([]::score list) + k \<and>
            (k < length ms \<longrightarrow> pr') \<and> (ms \<noteq> [] \<longrightarrow> 0 < k))"
  proof (rule collect_ab_max_loop_inv [OF assms(1)])
    fix m a cn y assume "m \<in> set ms" "a < \<beta>" "f m a \<beta> = Inr (cn, y)"
    with assms(2) show "(\<forall>n \<in> set cn. G n) \<and> R y" by blast
  qed (simp_all add: assms(3))
  then obtain k where k: "k \<le> length ms" "ex' = take k ms" "length cvs' = k"
    "k < length ms \<longrightarrow> pr'" "ms \<noteq> [] \<longrightarrow> 0 < k" by auto
  have 1: "prefix ex' ms" unfolding k(2) by (rule take_is_prefix)
  have 2: "length cvs' = length ex'" using k(1,2,3) by simp
  have 3: "ex' \<noteq> ms \<longrightarrow> pr'" using k(1,2,4) by (cases "k < length ms") simp_all
  have 4: "ms \<noteq> [] \<longrightarrow> cvs' \<noteq> []" using k(3,5) by auto
  from inv 1 2 3 4 show ?thesis by simp
qed

lemma collect_ab_min_loop_root:
  assumes "collect_ab_min_loop f ms [] PosInf [] [] False \<alpha> \<beta> =
      Inr (ns', val', cvs', ex', pr', \<alpha>', \<beta>')"
    and "\<forall>m b cn y. m \<in> set ms \<longrightarrow> \<alpha> < b \<longrightarrow> f m \<alpha> b = Inr (cn, y) \<longrightarrow>
           (\<forall>n \<in> set cn. G n) \<and> R y"
    and "\<alpha> < \<beta>"
  shows "(\<forall>n \<in> set ns'. G n) \<and> (\<forall>y \<in> set cvs'. R y) \<and> val' = foldl min PosInf cvs' \<and>
         \<alpha>' = \<alpha> \<and> \<beta>' = min \<beta> val' \<and> pr' = (\<beta>' \<le> \<alpha>) \<and>
         prefix ex' ms \<and> length cvs' = length ex' \<and> (ex' \<noteq> ms \<longrightarrow> pr') \<and>
         (ms \<noteq> [] \<longrightarrow> cvs' \<noteq> [])"
proof -
  have inv: "(\<forall>n \<in> set ns'. G n) \<and> (\<forall>y \<in> set cvs'. R y) \<and> val' = foldl min PosInf cvs' \<and>
         val' \<le> PosInf \<and> \<alpha>' = \<alpha> \<and> \<beta>' = min \<beta> val' \<and> pr' = (False \<or> \<beta>' \<le> \<alpha>) \<and>
         (\<exists>k\<le>length ms. ex' = [] @ take k ms \<and> length cvs' = length ([]::score list) + k \<and>
            (k < length ms \<longrightarrow> pr') \<and> (ms \<noteq> [] \<longrightarrow> 0 < k))"
  proof (rule collect_ab_min_loop_inv [OF assms(1)])
    fix m b cn y assume "m \<in> set ms" "\<alpha> < b" "f m \<alpha> b = Inr (cn, y)"
    with assms(2) show "(\<forall>n \<in> set cn. G n) \<and> R y" by blast
  qed (simp_all add: assms(3))
  then obtain k where k: "k \<le> length ms" "ex' = take k ms" "length cvs' = k"
    "k < length ms \<longrightarrow> pr'" "ms \<noteq> [] \<longrightarrow> 0 < k" by auto
  have 1: "prefix ex' ms" unfolding k(2) by (rule take_is_prefix)
  have 2: "length cvs' = length ex'" using k(1,2,3) by simp
  have 3: "ex' \<noteq> ms \<longrightarrow> pr'" using k(1,2,4) by (cases "k < length ms") simp_all
  have 4: "ms \<noteq> [] \<longrightarrow> cvs' \<noteq> []" using k(3,5) by auto
  from inv 1 2 3 4 show ?thesis by simp
qed








subsection \<open>The board of a node\<close>

text \<open>
  The board a search reaches from \<open>board\<close> at \<open>depth\<close> by a sequence of moves: MAX (+1)
  moves at even depth, MIN (-1) at odd depth, as the two branches of the searches do.
\<close>

fun replay :: "board \<Rightarrow> nat \<Rightarrow> int list \<Rightarrow> error + board" where
  "replay board depth [] = Inr board"
| "replay board depth (m # ms) =
     (case make_move board m (if depth mod 2 = 0 then 1 else - 1) of Inl e \<Rightarrow> Inl e
      | Inr child \<Rightarrow> replay child (depth + 1) ms)"

text \<open>
  A record lies below the node \<open>(board, depth, path)\<close>: its path extends \<open>path\<close>, its depth
  counts the extra moves, and if it is a terminal record its value is the evaluation of
  the board these moves lead to.
\<close>

definition located :: "board \<Rightarrow> nat \<Rightarrow> int list \<Rightarrow> node \<Rightarrow> bool" where
  "located board depth path n =
     (prefix path (n_path n) \<and>
      n_depth n = depth + (length (n_path n) - length path) \<and>
      (case replay board depth (drop (length path) (n_path n)) of
         Inl e \<Rightarrow> False
       | Inr b \<Rightarrow> n_type n = TerminalNode \<longrightarrow>
           (case evaluate b of Inl e \<Rightarrow> False | Inr s \<Rightarrow> n_value n = Fin s)))"

text \<open>What an Alpha-Beta record says about its window and the moves it explored.\<close>

definition window_ok :: "node \<Rightarrow> bool" where
  "window_ok n =
     (case (n_alpha n, n_beta n) of
        (Some a, Some b) \<Rightarrow>
          (case n_type n of
             TerminalNode \<Rightarrow> a < b \<and> n_pruned n = None
           | _ \<Rightarrow> (case (n_moves n, n_explored_moves n, n_children_values n, n_pruned n) of
                     (Some ms, Some ex, Some cvs, Some pr) \<Rightarrow>
                        prefix ex ms \<and> length cvs = length ex \<and> pr = (b \<le> a) \<and>
                        (ex \<noteq> ms \<longrightarrow> pr)
                   | _ \<Rightarrow> False))
      | _ \<Rightarrow> False)"

lemma located_child:
  assumes "located c (depth + 1) (path @ [m]) n"
    and "make_move board m (if depth mod 2 = 0 then 1 else - 1) = Inr c"
  shows "located board depth path n"
proof -
  from assms(1) have "prefix (path @ [m]) (n_path n)" by (simp add: located_def)
  then obtain rest where np: "n_path n = path @ m # rest" by (auto simp: prefix_def)
  with assms show ?thesis by (simp add: located_def)
qed

lemma located_self:
  "t \<noteq> TerminalNode \<or> (evaluate board = Inr s \<and> v = Fin s) \<Longrightarrow>
   located board depth path \<lparr>n_path = path, n_state = st, n_value = v, n_type = t,
     n_depth = depth, n_children_values = cv, n_moves = mv, n_explored_moves = ex,
     n_pruned = pr, n_alpha = a, n_beta = b\<rparr>"
  by (auto simp: located_def)

subsection \<open>Every record of the collecting searches\<close>

lemma player_even: "d mod 2 = 0 \<Longrightarrow> (if d mod 2 = 0 then 1 else - 1) = (1::int)"
  by simp

lemma player_odd: "d mod 2 \<noteq> 0 \<Longrightarrow> (if d mod 2 = 0 then 1 else - 1) = (- 1::int)"
  by simp


lemma collect_alphabeta_tree_nodes_inv:
  "al < be \<Longrightarrow> collect_alphabeta_tree_nodes b d p al be = Inr (nodes, v) \<Longrightarrow>
   v \<in> value_range \<and> (\<forall>n \<in> set nodes. node_good n \<and> located b d p n \<and> window_ok n)"
proof (induction b d p al be arbitrary: nodes v rule: collect_alphabeta_tree_nodes.induct)
  case (1 board depth path alpha beta)
  from collect_alphabeta_tree_nodes_Inr_evaluate [OF "1.prems"(2)]
  obtain s where ev: "evaluate board = Inr s" ..
  show ?case
  proof (cases "depth = MAX_DEPTH \<or> s \<noteq> 0")
    case True
    from collect_alphabeta_tree_nodes_terminal [OF ev True, of path alpha beta] "1.prems"(2)
    have "v = Fin s" and "nodes = [\<lparr>n_path = path, n_state = node_state depth path,
        n_value = Fin s, n_type = TerminalNode, n_depth = depth, n_children_values = None,
        n_moves = None, n_explored_moves = None, n_pruned = None, n_alpha = Some alpha,
        n_beta = Some beta\<rparr>]" by simp_all
    with evaluate_win_values [OF ev] ev "1.prems"(1) show ?thesis
      by (simp add: node_good_def aggregated_def children_recorded_def win_values_range
          located_self window_ok_def)
  next
    case False
    show ?thesis
    proof (cases "depth mod 2 = 0")
      case True
      let ?f = "\<lambda>m alpha beta. case make_move board m 1 of Inl e \<Rightarrow> Inl e
        | Inr child \<Rightarrow> collect_alphabeta_tree_nodes child (depth + 1) (path @ [m]) alpha beta"
      from collect_alphabeta_tree_nodes_max [OF ev False True "1.prems"(2)]
      obtain ms ns cvs ex pr al' be' where ms: "get_valid_moves board depth = Inr ms"
        and loop: "collect_ab_max_loop ?f ms [] NegInf [] [] False alpha beta =
          Inr (ns, v, cvs, ex, pr, al', be')"
        and nodes: "nodes = ns @ [\<lparr>n_path = path, n_state = node_state depth path,
          n_value = v, n_type = MaxNode, n_depth = depth, n_children_values = Some cvs,
          n_moves = Some ms, n_explored_moves = Some ex, n_pruned = Some pr,
          n_alpha = Some al', n_beta = Some be'\<rparr>]" by blast
      have child: "\<forall>m a cn y. m \<in> set ms \<longrightarrow> a < beta \<longrightarrow> ?f m a beta = Inr (cn, y) \<longrightarrow>
          (\<forall>n \<in> set cn. node_good n \<and> located board depth path n \<and> window_ok n) \<and>
          y \<in> value_range"
      proof (intro allI impI)
        fix m a cn y
        assume m: "m \<in> set ms" and ab: "a < beta" and fm: "?f m a beta = Inr (cn, y)"
        from fm obtain c where c: "make_move board m 1 = Inr c"
          and cc: "collect_alphabeta_tree_nodes c (depth + 1) (path @ [m]) a beta = Inr (cn, y)"
          by (auto split: sum.splits)
        have ih: "y \<in> value_range \<and>
            (\<forall>n \<in> set cn. node_good n \<and> located c (depth + 1) (path @ [m]) n \<and> window_ok n)"
          using refl refl ev False True ms m c ab cc by (rule "1.IH"(1))
        have "located board depth path n" if "n \<in> set cn" for n
          using ih that c by (intro located_child [of c depth path m n]) (simp_all add: True)
        with ih show "(\<forall>n \<in> set cn. node_good n \<and> located board depth path n \<and> window_ok n) \<and>
            y \<in> value_range" by simp
      qed
      from collect_ab_max_loop_root [OF loop child "1.prems"(1)]
      have inv: "\<forall>n \<in> set ns. node_good n \<and> located board depth path n \<and> window_ok n"
        "\<forall>y \<in> set cvs. y \<in> value_range" "v = foldl max NegInf cvs"
        and w: "pr = (be' \<le> al')" "prefix ex ms" "length cvs = length ex" "ex \<noteq> ms \<longrightarrow> pr"
          "ms \<noteq> [] \<longrightarrow> cvs \<noteq> []"
        by blast+
      have v: "v \<in> value_range" using running_max_range [OF inv(2)] inv(3) by simp
      with inv w nodes show ?thesis
        by (simp add: node_good_def aggregated_def children_recorded_def located_self
            window_ok_def)
    next
      case odd: False
      let ?f = "\<lambda>m alpha beta. case make_move board m (- 1) of Inl e \<Rightarrow> Inl e
        | Inr child \<Rightarrow> collect_alphabeta_tree_nodes child (depth + 1) (path @ [m]) alpha beta"
      from collect_alphabeta_tree_nodes_min [OF ev False odd "1.prems"(2)]
      obtain ms ns cvs ex pr al' be' where ms: "get_valid_moves board depth = Inr ms"
        and loop: "collect_ab_min_loop ?f ms [] PosInf [] [] False alpha beta =
          Inr (ns, v, cvs, ex, pr, al', be')"
        and nodes: "nodes = ns @ [\<lparr>n_path = path, n_state = node_state depth path,
          n_value = v, n_type = MinNode, n_depth = depth, n_children_values = Some cvs,
          n_moves = Some ms, n_explored_moves = Some ex, n_pruned = Some pr,
          n_alpha = Some al', n_beta = Some be'\<rparr>]" by blast
      have child: "\<forall>m b' cn y. m \<in> set ms \<longrightarrow> alpha < b' \<longrightarrow> ?f m alpha b' = Inr (cn, y) \<longrightarrow>
          (\<forall>n \<in> set cn. node_good n \<and> located board depth path n \<and> window_ok n) \<and>
          y \<in> value_range"
      proof (intro allI impI)
        fix m b' cn y
        assume m: "m \<in> set ms" and ab: "alpha < b'" and fm: "?f m alpha b' = Inr (cn, y)"
        from fm obtain c where c: "make_move board m (- 1) = Inr c"
          and cc: "collect_alphabeta_tree_nodes c (depth + 1) (path @ [m]) alpha b' = Inr (cn, y)"
          by (auto split: sum.splits)
        have ih: "y \<in> value_range \<and>
            (\<forall>n \<in> set cn. node_good n \<and> located c (depth + 1) (path @ [m]) n \<and> window_ok n)"
          using refl refl ev False odd ms m c ab cc by (rule "1.IH"(2))
        have "located board depth path n" if "n \<in> set cn" for n
          using ih that c by (intro located_child [of c depth path m n]) (simp_all add: odd)
        with ih show "(\<forall>n \<in> set cn. node_good n \<and> located board depth path n \<and> window_ok n) \<and>
            y \<in> value_range" by simp
      qed
      from collect_ab_min_loop_root [OF loop child "1.prems"(1)]
      have inv: "\<forall>n \<in> set ns. node_good n \<and> located board depth path n \<and> window_ok n"
        "\<forall>y \<in> set cvs. y \<in> value_range" "v = foldl min PosInf cvs"
        and w: "pr = (be' \<le> al')" "prefix ex ms" "length cvs = length ex" "ex \<noteq> ms \<longrightarrow> pr"
          "ms \<noteq> [] \<longrightarrow> cvs \<noteq> []"
        by blast+
      have v: "v \<in> value_range" using running_min_range [OF inv(2)] inv(3) by simp
      with inv w nodes show ?thesis
        by (simp add: node_good_def aggregated_def children_recorded_def located_self
            window_ok_def)
    qed
  qed
qed






subsection \<open>The collecting searches return the value of the plain searches\<close>

lemma collect_max_loop_value:
  assumes "max_loop g ms best = Inr x"
    and "\<forall>m y. m \<in> set ms \<longrightarrow> g m = Inr y \<longrightarrow> (\<exists>cn. f m = Inr (cn, y))"
  shows "\<exists>ns' cvs'. collect_max_loop f ms ns best cvs = Inr (ns', x, cvs')"
  using assms
proof (induction ms arbitrary: ns best cvs)
  case Nil
  then show ?case by simp
next
  case (Cons m ms)
  from Cons.prems(1) obtain y where y: "g m = Inr y"
    and rest: "max_loop g ms (if y > best then y else best) = Inr x"
    by (auto split: sum.splits)
  from Cons.prems(2) y obtain cn where cn: "f m = Inr (cn, y)" by auto
  have "\<exists>ns' cvs'. collect_max_loop f ms (ns @ cn) (if y > best then y else best) (cvs @ [y]) =
      Inr (ns', x, cvs')"
    using rest Cons.prems(2) by (intro Cons.IH) simp_all
  with cn show ?case by simp
qed

lemma collect_min_loop_value:
  assumes "min_loop g ms best = Inr x"
    and "\<forall>m y. m \<in> set ms \<longrightarrow> g m = Inr y \<longrightarrow> (\<exists>cn. f m = Inr (cn, y))"
  shows "\<exists>ns' cvs'. collect_min_loop f ms ns best cvs = Inr (ns', x, cvs')"
  using assms
proof (induction ms arbitrary: ns best cvs)
  case Nil
  then show ?case by simp
next
  case (Cons m ms)
  from Cons.prems(1) obtain y where y: "g m = Inr y"
    and rest: "min_loop g ms (if y < best then y else best) = Inr x"
    by (auto split: sum.splits)
  from Cons.prems(2) y obtain cn where cn: "f m = Inr (cn, y)" by auto
  have "\<exists>ns' cvs'. collect_min_loop f ms (ns @ cn) (if y < best then y else best) (cvs @ [y]) =
      Inr (ns', x, cvs')"
    using rest Cons.prems(2) by (intro Cons.IH) simp_all
  with cn show ?case by simp
qed

lemma collect_ab_max_loop_value:
  assumes "ab_max_loop g ms val \<alpha> \<beta> = Inr x"
    and "\<forall>m a b y. m \<in> set ms \<longrightarrow> g m a b = Inr y \<longrightarrow> (\<exists>cn. f m a b = Inr (cn, y))"
  shows "\<exists>ns' cvs' ex' pr' \<alpha>' \<beta>'.
           collect_ab_max_loop f ms ns val cvs ex pr \<alpha> \<beta> = Inr (ns', x, cvs', ex', pr', \<alpha>', \<beta>')"
  using assms
proof (induction ms arbitrary: ns val cvs ex \<alpha>)
  case Nil
  then show ?case by simp
next
  case (Cons m ms)
  from Cons.prems(1) obtain y where y: "g m \<alpha> \<beta> = Inr y" by (auto split: sum.splits)
  from Cons.prems(2) [rule_format, of m \<alpha> \<beta> y] y
  obtain cn where cn: "f m \<alpha> \<beta> = Inr (cn, y)" by auto
  let ?val = "if y > val then y else val"
  let ?\<alpha> = "if ?val > \<alpha> then ?val else \<alpha>"
  show ?case
  proof (cases "?\<alpha> \<ge> \<beta>")
    case True
    with Cons.prems(1) y have "x = ?val" by (simp add: Let_def)
    with True cn show ?thesis by (auto simp: Let_def)
  next
    case False
    with Cons.prems(1) y have rest: "ab_max_loop g ms ?val ?\<alpha> \<beta> = Inr x"
      by (simp add: Let_def)
    have "\<exists>ns' cvs' ex' pr' \<alpha>' \<beta>'.
        collect_ab_max_loop f ms (ns @ cn) ?val (cvs @ [y]) (ex @ [m]) pr ?\<alpha> \<beta> =
        Inr (ns', x, cvs', ex', pr', \<alpha>', \<beta>')"
      using rest Cons.prems(2) by (intro Cons.IH) simp_all
    with False cn show ?thesis by (simp add: Let_def)
  qed
qed

lemma collect_ab_min_loop_value:
  assumes "ab_min_loop g ms val \<alpha> \<beta> = Inr x"
    and "\<forall>m a b y. m \<in> set ms \<longrightarrow> g m a b = Inr y \<longrightarrow> (\<exists>cn. f m a b = Inr (cn, y))"
  shows "\<exists>ns' cvs' ex' pr' \<alpha>' \<beta>'.
           collect_ab_min_loop f ms ns val cvs ex pr \<alpha> \<beta> = Inr (ns', x, cvs', ex', pr', \<alpha>', \<beta>')"
  using assms
proof (induction ms arbitrary: ns val cvs ex \<beta>)
  case Nil
  then show ?case by simp
next
  case (Cons m ms)
  from Cons.prems(1) obtain y where y: "g m \<alpha> \<beta> = Inr y" by (auto split: sum.splits)
  from Cons.prems(2) [rule_format, of m \<alpha> \<beta> y] y
  obtain cn where cn: "f m \<alpha> \<beta> = Inr (cn, y)" by auto
  let ?val = "if y < val then y else val"
  let ?\<beta> = "if ?val < \<beta> then ?val else \<beta>"
  show ?case
  proof (cases "\<alpha> \<ge> ?\<beta>")
    case True
    with Cons.prems(1) y have "x = ?val" by (simp add: Let_def)
    with True cn show ?thesis by (auto simp: Let_def)
  next
    case False
    with Cons.prems(1) y have rest: "ab_min_loop g ms ?val \<alpha> ?\<beta> = Inr x"
      by (simp add: Let_def)
    have "\<exists>ns' cvs' ex' pr' \<alpha>' \<beta>'.
        collect_ab_min_loop f ms (ns @ cn) ?val (cvs @ [y]) (ex @ [m]) pr \<alpha> ?\<beta> =
        Inr (ns', x, cvs', ex', pr', \<alpha>', \<beta>')"
      using rest Cons.prems(2) by (intro Cons.IH) simp_all
    with False cn show ?thesis by (simp add: Let_def)
  qed
qed


lemma collect_tree_nodes_step_max:
  assumes "evaluate b = Inr s" "\<not> (d = MAX_DEPTH \<or> s \<noteq> 0)" "d mod 2 = 0"
    and "get_valid_moves b d = Inr ms"
    and "collect_max_loop (\<lambda>m. case make_move b m 1 of Inl e \<Rightarrow> Inl e
        | Inr child \<Rightarrow> collect_tree_nodes child (d + 1) (p @ [m]) nt) ms [] NegInf [] =
       Inr (ns, v, cvs)"
  shows "\<exists>nodes. collect_tree_nodes b d p nt = Inr (nodes, v)"
  using assms by (subst collect_tree_nodes.simps) (simp add: Let_def)

lemma collect_tree_nodes_step_min:
  assumes "evaluate b = Inr s" "\<not> (d = MAX_DEPTH \<or> s \<noteq> 0)" "d mod 2 \<noteq> 0"
    and "get_valid_moves b d = Inr ms"
    and "collect_min_loop (\<lambda>m. case make_move b m (- 1) of Inl e \<Rightarrow> Inl e
        | Inr child \<Rightarrow> collect_tree_nodes child (d + 1) (p @ [m]) nt) ms [] PosInf [] =
       Inr (ns, v, cvs)"
  shows "\<exists>nodes. collect_tree_nodes b d p nt = Inr (nodes, v)"
  using assms by (subst collect_tree_nodes.simps) (simp add: Let_def)

lemma collect_alphabeta_tree_nodes_step_max:
  assumes "evaluate b = Inr s" "\<not> (d = MAX_DEPTH \<or> s \<noteq> 0)" "d mod 2 = 0"
    and "get_valid_moves b d = Inr ms"
    and "collect_ab_max_loop (\<lambda>m alpha beta. case make_move b m 1 of Inl e \<Rightarrow> Inl e
        | Inr child \<Rightarrow> collect_alphabeta_tree_nodes child (d + 1) (p @ [m]) alpha beta)
        ms [] NegInf [] [] False al be = Inr (ns, v, cvs, ex, pr, al', be')"
  shows "\<exists>nodes. collect_alphabeta_tree_nodes b d p al be = Inr (nodes, v)"
  using assms by (subst collect_alphabeta_tree_nodes.simps) (simp add: Let_def)

lemma collect_alphabeta_tree_nodes_step_min:
  assumes "evaluate b = Inr s" "\<not> (d = MAX_DEPTH \<or> s \<noteq> 0)" "d mod 2 \<noteq> 0"
    and "get_valid_moves b d = Inr ms"
    and "collect_ab_min_loop (\<lambda>m alpha beta. case make_move b m (- 1) of Inl e \<Rightarrow> Inl e
        | Inr child \<Rightarrow> collect_alphabeta_tree_nodes child (d + 1) (p @ [m]) alpha beta)
        ms [] PosInf [] [] False al be = Inr (ns, v, cvs, ex, pr, al', be')"
  shows "\<exists>nodes. collect_alphabeta_tree_nodes b d p al be = Inr (nodes, v)"
  using assms by (subst collect_alphabeta_tree_nodes.simps) (simp add: Let_def)

lemma minimax_collect:
  "minimax b d p = Inr x \<Longrightarrow> \<exists>nodes. collect_tree_nodes b d p nt = Inr (nodes, x)"
proof (induction b d p arbitrary: x rule: minimax.induct)
  case (1 board depth path)
  from minimax_Inr_evaluate [OF "1.prems"] obtain s where ev: "evaluate board = Inr s" ..
  show ?case
  proof (cases "depth = MAX_DEPTH \<or> s \<noteq> 0")
    case True
    from minimax_terminal [OF ev True, of path] "1.prems" have "x = Fin s" by simp
    with collect_tree_nodes_terminal [OF ev True, of path nt] show ?thesis by simp
  next
    case False
    from minimax_Inr_moves [OF "1.prems" ev False]
    obtain ms where ms: "get_valid_moves board depth = Inr ms" ..
    note mm = minimax_unfold [OF ev False ms, of path]
    show ?thesis
    proof (cases "depth mod 2 = 0")
      case True
      let ?g = "\<lambda>m. case make_move board m 1 of Inl e \<Rightarrow> Inl e
                     | Inr child \<Rightarrow> minimax child (depth + 1) (path @ [m])"
      let ?f = "\<lambda>m. case make_move board m 1 of Inl e \<Rightarrow> Inl e
                     | Inr child \<Rightarrow> collect_tree_nodes child (depth + 1) (path @ [m]) nt"
      have loop: "max_loop ?g ms NegInf = Inr x" using mm True "1.prems" by simp
      have child: "\<forall>m y. m \<in> set ms \<longrightarrow> ?g m = Inr y \<longrightarrow> (\<exists>cn. ?f m = Inr (cn, y))"
      proof (intro allI impI)
        fix m y assume m: "m \<in> set ms" and gm: "?g m = Inr y"
        from gm obtain c where c: "make_move board m 1 = Inr c"
          and y: "minimax c (depth + 1) (path @ [m]) = Inr y" by (auto split: sum.splits)
        have "\<exists>cn. collect_tree_nodes c (depth + 1) (path @ [m]) nt = Inr (cn, y)"
          using ev False True ms m c y by (rule "1.IH"(1))
        with c show "\<exists>cn. ?f m = Inr (cn, y)" by simp
      qed
      from collect_max_loop_value [OF loop child, of "[]" "[]"]
      obtain ns cvs where "collect_max_loop ?f ms [] NegInf [] = Inr (ns, x, cvs)" by blast
      with ev False True ms show ?thesis by (rule collect_tree_nodes_step_max)
    next
      case odd: False
      let ?g = "\<lambda>m. case make_move board m (- 1) of Inl e \<Rightarrow> Inl e
                     | Inr child \<Rightarrow> minimax child (depth + 1) (path @ [m])"
      let ?f = "\<lambda>m. case make_move board m (- 1) of Inl e \<Rightarrow> Inl e
                     | Inr child \<Rightarrow> collect_tree_nodes child (depth + 1) (path @ [m]) nt"
      have loop: "min_loop ?g ms PosInf = Inr x" using mm odd "1.prems" by simp
      have child: "\<forall>m y. m \<in> set ms \<longrightarrow> ?g m = Inr y \<longrightarrow> (\<exists>cn. ?f m = Inr (cn, y))"
      proof (intro allI impI)
        fix m y assume m: "m \<in> set ms" and gm: "?g m = Inr y"
        from gm obtain c where c: "make_move board m (- 1) = Inr c"
          and y: "minimax c (depth + 1) (path @ [m]) = Inr y" by (auto split: sum.splits)
        have "\<exists>cn. collect_tree_nodes c (depth + 1) (path @ [m]) nt = Inr (cn, y)"
          using ev False odd ms m c y by (rule "1.IH"(2))
        with c show "\<exists>cn. ?f m = Inr (cn, y)" by simp
      qed
      from collect_min_loop_value [OF loop child, of "[]" "[]"]
      obtain ns cvs where "collect_min_loop ?f ms [] PosInf [] = Inr (ns, x, cvs)" by blast
      with ev False odd ms show ?thesis by (rule collect_tree_nodes_step_min)
    qed
  qed
qed

lemma alphabeta_Inr_evaluate: "alphabeta b d p al be = Inr x \<Longrightarrow> \<exists>s. evaluate b = Inr s"
  by (subst (asm) alphabeta.simps) (simp split: sum.splits)

lemma alphabeta_Inr_moves:
  "alphabeta b d p al be = Inr x \<Longrightarrow> evaluate b = Inr s \<Longrightarrow> \<not> (d = MAX_DEPTH \<or> s \<noteq> 0) \<Longrightarrow>
   \<exists>ms. get_valid_moves b d = Inr ms"
  by (subst (asm) alphabeta.simps) (simp split: sum.splits if_splits)

lemma alphabeta_collect:
  "alphabeta b d p al be = Inr x \<Longrightarrow>
   \<exists>nodes. collect_alphabeta_tree_nodes b d p al be = Inr (nodes, x)"
proof (induction b d p al be arbitrary: x rule: alphabeta.induct)
  case (1 board depth path alpha beta)
  from alphabeta_Inr_evaluate [OF "1.prems"] obtain s where ev: "evaluate board = Inr s" ..
  show ?case
  proof (cases "depth = MAX_DEPTH \<or> s \<noteq> 0")
    case True
    from alphabeta_terminal [OF ev True, of path alpha beta] "1.prems" have "x = Fin s" by simp
    with collect_alphabeta_tree_nodes_terminal [OF ev True, of path alpha beta]
    show ?thesis by simp
  next
    case False
    from alphabeta_Inr_moves [OF "1.prems" ev False]
    obtain ms where ms: "get_valid_moves board depth = Inr ms" ..
    note ab = alphabeta_unfold [OF ev False ms, of path alpha beta]
    show ?thesis
    proof (cases "depth mod 2 = 0")
      case True
      let ?g = "\<lambda>m alpha beta. case make_move board m 1 of Inl e \<Rightarrow> Inl e
                     | Inr child \<Rightarrow> alphabeta child (depth + 1) (path @ [m]) alpha beta"
      let ?f = "\<lambda>m alpha beta. case make_move board m 1 of Inl e \<Rightarrow> Inl e
                     | Inr child \<Rightarrow>
                         collect_alphabeta_tree_nodes child (depth + 1) (path @ [m]) alpha beta"
      have loop: "ab_max_loop ?g ms NegInf alpha beta = Inr x" using ab True "1.prems" by simp
      have child: "\<forall>m a b y. m \<in> set ms \<longrightarrow> ?g m a b = Inr y \<longrightarrow>
          (\<exists>cn. ?f m a b = Inr (cn, y))"
      proof (intro allI impI)
        fix m a b y assume m: "m \<in> set ms" and gm: "?g m a b = Inr y"
        from gm obtain c where c: "make_move board m 1 = Inr c"
          and y: "alphabeta c (depth + 1) (path @ [m]) a b = Inr y" by (auto split: sum.splits)
        have "\<exists>cn. collect_alphabeta_tree_nodes c (depth + 1) (path @ [m]) a b = Inr (cn, y)"
          using ev False True ms m c y by (rule "1.IH"(1))
        with c show "\<exists>cn. ?f m a b = Inr (cn, y)" by simp
      qed
      from collect_ab_max_loop_value [OF loop child, of "[]" "[]" "[]" False]
      obtain ns cvs ex pr al' be'
        where "collect_ab_max_loop ?f ms [] NegInf [] [] False alpha beta =
          Inr (ns, x, cvs, ex, pr, al', be')" by blast
      with ev False True ms show ?thesis by (rule collect_alphabeta_tree_nodes_step_max)
    next
      case odd: False
      let ?g = "\<lambda>m alpha beta. case make_move board m (- 1) of Inl e \<Rightarrow> Inl e
                     | Inr child \<Rightarrow> alphabeta child (depth + 1) (path @ [m]) alpha beta"
      let ?f = "\<lambda>m alpha beta. case make_move board m (- 1) of Inl e \<Rightarrow> Inl e
                     | Inr child \<Rightarrow>
                         collect_alphabeta_tree_nodes child (depth + 1) (path @ [m]) alpha beta"
      have loop: "ab_min_loop ?g ms PosInf alpha beta = Inr x" using ab odd "1.prems" by simp
      have child: "\<forall>m a b y. m \<in> set ms \<longrightarrow> ?g m a b = Inr y \<longrightarrow>
          (\<exists>cn. ?f m a b = Inr (cn, y))"
      proof (intro allI impI)
        fix m a b y assume m: "m \<in> set ms" and gm: "?g m a b = Inr y"
        from gm obtain c where c: "make_move board m (- 1) = Inr c"
          and y: "alphabeta c (depth + 1) (path @ [m]) a b = Inr y" by (auto split: sum.splits)
        have "\<exists>cn. collect_alphabeta_tree_nodes c (depth + 1) (path @ [m]) a b = Inr (cn, y)"
          using ev False odd ms m c y by (rule "1.IH"(2))
        with c show "\<exists>cn. ?f m a b = Inr (cn, y)" by simp
      qed
      from collect_ab_min_loop_value [OF loop child, of "[]" "[]" "[]" False]
      obtain ns cvs ex pr al' be'
        where "collect_ab_min_loop ?f ms [] PosInf [] [] False alpha beta =
          Inr (ns, x, cvs, ex, pr, al', be')" by blast
      with ev False odd ms show ?thesis by (rule collect_alphabeta_tree_nodes_step_min)
    qed
  qed
qed



subsection \<open>Boards on which every node below has a legal move\<close>










section \<open>The range of the values\<close>










section \<open>Terminal nodes visited\<close>

text \<open>No record of the list was cut off: none has its \<^verbatim>\<open>pruned\<close> flag set.\<close>

definition quiet :: "node list \<Rightarrow> bool" where
  "quiet nodes = (\<forall>n \<in> set nodes. n_pruned n \<noteq> Some True)"

lemma terminal_count_append [simp]:
  "terminal_count (xs @ ys) = terminal_count xs + terminal_count ys"
  by (simp add: terminal_count_def)

lemma quiet_append [simp]: "quiet (xs @ ys) = (quiet xs \<and> quiet ys)"
  by (auto simp: quiet_def)

lemma quiet_Nil [simp]: "quiet []"
  by (simp add: quiet_def)

lemma terminal_count_Nil [simp]: "terminal_count [] = 0"
  by (simp add: terminal_count_def)

lemma collect_max_loop_extends:
  "collect_max_loop g ms ns best cvs = Inr (ns', best', cvs') \<Longrightarrow> \<exists>more. ns' = ns @ more"
proof (induction ms arbitrary: ns best cvs)
  case Nil
  then show ?case by simp
next
  case (Cons m ms)
  from Cons.prems obtain cn y where "g m = Inr (cn, y)"
    and rest: "collect_max_loop g ms (ns @ cn) (if y > best then y else best) (cvs @ [y]) =
      Inr (ns', best', cvs')"
    by (auto split: sum.splits)
  from Cons.IH [OF rest] show ?case by auto
qed

lemma collect_min_loop_extends:
  "collect_min_loop g ms ns best cvs = Inr (ns', best', cvs') \<Longrightarrow> \<exists>more. ns' = ns @ more"
proof (induction ms arbitrary: ns best cvs)
  case Nil
  then show ?case by simp
next
  case (Cons m ms)
  from Cons.prems obtain cn y where "g m = Inr (cn, y)"
    and rest: "collect_min_loop g ms (ns @ cn) (if y < best then y else best) (cvs @ [y]) =
      Inr (ns', best', cvs')"
    by (auto split: sum.splits)
  from Cons.IH [OF rest] show ?case by auto
qed

lemma collect_ab_max_loop_fewer:
  assumes "collect_max_loop g ms nsm bestm cvsm = Inr (nsm', bestm', cvsm')"
    and "\<forall>m a b cnm ym. m \<in> set ms \<longrightarrow> g m = Inr (cnm, ym) \<longrightarrow>
           (\<exists>cn y. f m a b = Inr (cn, y) \<and> terminal_count cn \<le> terminal_count cnm \<and>
                    (quiet cn \<longrightarrow> terminal_count cn = terminal_count cnm))"
  shows "\<exists>more val' cvs' ex' pr' \<alpha>' \<beta>' mm.
           collect_ab_max_loop f ms ns val cvs ex pr \<alpha> \<beta> =
             Inr (ns @ more, val', cvs', ex', pr', \<alpha>', \<beta>') \<and>
           nsm' = nsm @ mm \<and> terminal_count more \<le> terminal_count mm \<and>
           (quiet more \<and> \<not> pr' \<longrightarrow> terminal_count more = terminal_count mm)"
  using assms
proof (induction ms arbitrary: ns val cvs ex \<alpha> nsm bestm cvsm)
  case Nil
  then show ?case by simp
next
  case (Cons m ms)
  from Cons.prems(1) obtain cnm ym where gm: "g m = Inr (cnm, ym)"
    and restm: "collect_max_loop g ms (nsm @ cnm) (if ym > bestm then ym else bestm)
      (cvsm @ [ym]) = Inr (nsm', bestm', cvsm')"
    by (auto split: sum.splits)
  from Cons.prems(2) [rule_format, of m cnm ym \<alpha> \<beta>] gm
  obtain cn y where fm: "f m \<alpha> \<beta> = Inr (cn, y)"
    and le: "terminal_count cn \<le> terminal_count cnm"
    and eq: "quiet cn \<longrightarrow> terminal_count cn = terminal_count cnm" by auto
  let ?val = "if y > val then y else val"
  let ?\<alpha> = "if ?val > \<alpha> then ?val else \<alpha>"
  show ?case
  proof (cases "?\<alpha> \<ge> \<beta>")
    case True
    from collect_max_loop_extends [OF restm] obtain r where r: "nsm' = (nsm @ cnm) @ r" ..
    have "collect_ab_max_loop f (m # ms) ns val cvs ex pr \<alpha> \<beta> =
        Inr (ns @ cn, ?val, cvs @ [y], ex @ [m], True, ?\<alpha>, \<beta>)"
      using True fm by (simp add: Let_def)
    moreover have "nsm' = nsm @ (cnm @ r)" using r by simp
    moreover have "terminal_count cn \<le> terminal_count (cnm @ r)" using le by simp
    ultimately show ?thesis by blast
  next
    case False
    have child: "\<forall>m a b cnm ym. m \<in> set ms \<longrightarrow> g m = Inr (cnm, ym) \<longrightarrow>
           (\<exists>cn y. f m a b = Inr (cn, y) \<and> terminal_count cn \<le> terminal_count cnm \<and>
                    (quiet cn \<longrightarrow> terminal_count cn = terminal_count cnm))"
      using Cons.prems(2) by simp
    from Cons.IH [OF restm child, of "ns @ cn" ?val "cvs @ [y]" "ex @ [m]" ?\<alpha>]
    obtain more val' cvs' ex' pr' \<alpha>' \<beta>' mm
      where ih: "collect_ab_max_loop f ms (ns @ cn) ?val (cvs @ [y]) (ex @ [m]) pr ?\<alpha> \<beta> =
          Inr ((ns @ cn) @ more, val', cvs', ex', pr', \<alpha>', \<beta>')"
        "nsm' = (nsm @ cnm) @ mm" "terminal_count more \<le> terminal_count mm"
        "quiet more \<and> \<not> pr' \<longrightarrow> terminal_count more = terminal_count mm" by blast
    have 1: "collect_ab_max_loop f (m # ms) ns val cvs ex pr \<alpha> \<beta> =
        Inr (ns @ (cn @ more), val', cvs', ex', pr', \<alpha>', \<beta>')"
      using False fm ih(1) by (simp add: Let_def)
    have 2: "nsm' = nsm @ (cnm @ mm)" using ih(2) by simp
    have 3: "terminal_count (cn @ more) \<le> terminal_count (cnm @ mm)" using le ih(3) by simp
    have 4: "quiet (cn @ more) \<and> \<not> pr' \<longrightarrow>
        terminal_count (cn @ more) = terminal_count (cnm @ mm)" using eq ih(4) by simp
    from 1 2 3 4 show ?thesis by blast
  qed
qed

lemma collect_ab_min_loop_fewer:
  assumes "collect_min_loop g ms nsm bestm cvsm = Inr (nsm', bestm', cvsm')"
    and "\<forall>m a b cnm ym. m \<in> set ms \<longrightarrow> g m = Inr (cnm, ym) \<longrightarrow>
           (\<exists>cn y. f m a b = Inr (cn, y) \<and> terminal_count cn \<le> terminal_count cnm \<and>
                    (quiet cn \<longrightarrow> terminal_count cn = terminal_count cnm))"
  shows "\<exists>more val' cvs' ex' pr' \<alpha>' \<beta>' mm.
           collect_ab_min_loop f ms ns val cvs ex pr \<alpha> \<beta> =
             Inr (ns @ more, val', cvs', ex', pr', \<alpha>', \<beta>') \<and>
           nsm' = nsm @ mm \<and> terminal_count more \<le> terminal_count mm \<and>
           (quiet more \<and> \<not> pr' \<longrightarrow> terminal_count more = terminal_count mm)"
  using assms
proof (induction ms arbitrary: ns val cvs ex \<beta> nsm bestm cvsm)
  case Nil
  then show ?case by simp
next
  case (Cons m ms)
  from Cons.prems(1) obtain cnm ym where gm: "g m = Inr (cnm, ym)"
    and restm: "collect_min_loop g ms (nsm @ cnm) (if ym < bestm then ym else bestm)
      (cvsm @ [ym]) = Inr (nsm', bestm', cvsm')"
    by (auto split: sum.splits)
  from Cons.prems(2) [rule_format, of m cnm ym \<alpha> \<beta>] gm
  obtain cn y where fm: "f m \<alpha> \<beta> = Inr (cn, y)"
    and le: "terminal_count cn \<le> terminal_count cnm"
    and eq: "quiet cn \<longrightarrow> terminal_count cn = terminal_count cnm" by auto
  let ?val = "if y < val then y else val"
  let ?\<beta> = "if ?val < \<beta> then ?val else \<beta>"
  show ?case
  proof (cases "\<alpha> \<ge> ?\<beta>")
    case True
    from collect_min_loop_extends [OF restm] obtain r where r: "nsm' = (nsm @ cnm) @ r" ..
    have "collect_ab_min_loop f (m # ms) ns val cvs ex pr \<alpha> \<beta> =
        Inr (ns @ cn, ?val, cvs @ [y], ex @ [m], True, \<alpha>, ?\<beta>)"
      using True fm by (simp add: Let_def)
    moreover have "nsm' = nsm @ (cnm @ r)" using r by simp
    moreover have "terminal_count cn \<le> terminal_count (cnm @ r)" using le by simp
    ultimately show ?thesis by blast
  next
    case False
    have child: "\<forall>m a b cnm ym. m \<in> set ms \<longrightarrow> g m = Inr (cnm, ym) \<longrightarrow>
           (\<exists>cn y. f m a b = Inr (cn, y) \<and> terminal_count cn \<le> terminal_count cnm \<and>
                    (quiet cn \<longrightarrow> terminal_count cn = terminal_count cnm))"
      using Cons.prems(2) by simp
    from Cons.IH [OF restm child, of "ns @ cn" ?val "cvs @ [y]" "ex @ [m]" ?\<beta>]
    obtain more val' cvs' ex' pr' \<alpha>' \<beta>' mm
      where ih: "collect_ab_min_loop f ms (ns @ cn) ?val (cvs @ [y]) (ex @ [m]) pr \<alpha> ?\<beta> =
          Inr ((ns @ cn) @ more, val', cvs', ex', pr', \<alpha>', \<beta>')"
        "nsm' = (nsm @ cnm) @ mm" "terminal_count more \<le> terminal_count mm"
        "quiet more \<and> \<not> pr' \<longrightarrow> terminal_count more = terminal_count mm" by blast
    have 1: "collect_ab_min_loop f (m # ms) ns val cvs ex pr \<alpha> \<beta> =
        Inr (ns @ (cn @ more), val', cvs', ex', pr', \<alpha>', \<beta>')"
      using False fm ih(1) by (simp add: Let_def)
    have 2: "nsm' = nsm @ (cnm @ mm)" using ih(2) by simp
    have 3: "terminal_count (cn @ more) \<le> terminal_count (cnm @ mm)" using le ih(3) by simp
    have 4: "quiet (cn @ more) \<and> \<not> pr' \<longrightarrow>
        terminal_count (cn @ more) = terminal_count (cnm @ mm)" using eq ih(4) by simp
    from 1 2 3 4 show ?thesis by blast
  qed
qed


lemma collect_alphabeta_tree_nodes_result_max:
  assumes "evaluate b = Inr s" "\<not> (d = MAX_DEPTH \<or> s \<noteq> 0)" "d mod 2 = 0"
    and "get_valid_moves b d = Inr ms"
    and "collect_ab_max_loop (\<lambda>m alpha beta. case make_move b m 1 of Inl e \<Rightarrow> Inl e
        | Inr child \<Rightarrow> collect_alphabeta_tree_nodes child (d + 1) (p @ [m]) alpha beta)
        ms [] NegInf [] [] False al be = Inr (ns, v, cvs, ex, pr, al', be')"
  shows "collect_alphabeta_tree_nodes b d p al be =
     Inr (ns @ [\<lparr>n_path = p, n_state = node_state d p, n_value = v, n_type = MaxNode,
        n_depth = d, n_children_values = Some cvs, n_moves = Some ms,
        n_explored_moves = Some ex, n_pruned = Some pr, n_alpha = Some al',
        n_beta = Some be'\<rparr>], v)"
  using assms by (subst collect_alphabeta_tree_nodes.simps) (simp add: Let_def)

lemma collect_alphabeta_tree_nodes_result_min:
  assumes "evaluate b = Inr s" "\<not> (d = MAX_DEPTH \<or> s \<noteq> 0)" "d mod 2 \<noteq> 0"
    and "get_valid_moves b d = Inr ms"
    and "collect_ab_min_loop (\<lambda>m alpha beta. case make_move b m (- 1) of Inl e \<Rightarrow> Inl e
        | Inr child \<Rightarrow> collect_alphabeta_tree_nodes child (d + 1) (p @ [m]) alpha beta)
        ms [] PosInf [] [] False al be = Inr (ns, v, cvs, ex, pr, al', be')"
  shows "collect_alphabeta_tree_nodes b d p al be =
     Inr (ns @ [\<lparr>n_path = p, n_state = node_state d p, n_value = v, n_type = MinNode,
        n_depth = d, n_children_values = Some cvs, n_moves = Some ms,
        n_explored_moves = Some ex, n_pruned = Some pr, n_alpha = Some al',
        n_beta = Some be'\<rparr>], v)"
  using assms by (subst collect_alphabeta_tree_nodes.simps) (simp add: Let_def)

lemma terminal_count_internal:
  "t \<noteq> TerminalNode \<Longrightarrow>
   terminal_count (ns @ [\<lparr>n_path = p, n_state = st, n_value = v, n_type = t, n_depth = d,
     n_children_values = cv, n_moves = mv, n_explored_moves = ex, n_pruned = pr,
     n_alpha = a, n_beta = b\<rparr>]) = terminal_count ns"
  by (simp add: terminal_count_def)

lemma quiet_internal:
  "quiet (ns @ [\<lparr>n_path = p, n_state = st, n_value = v, n_type = t, n_depth = d,
     n_children_values = cv, n_moves = mv, n_explored_moves = ex, n_pruned = Some pr,
     n_alpha = a, n_beta = b\<rparr>]) = (quiet ns \<and> \<not> pr)"
  by (auto simp: quiet_def)

lemma alphabeta_fewer_terminals:
  "collect_tree_nodes b d p nt = Inr (nm, x) \<Longrightarrow>
   \<exists>na v. collect_alphabeta_tree_nodes b d p al be = Inr (na, v) \<and>
     terminal_count na \<le> terminal_count nm \<and>
     (quiet na \<longrightarrow> terminal_count na = terminal_count nm)"
proof (induction b d p nt arbitrary: nm x al be rule: collect_tree_nodes.induct)
  case (1 board depth path node_type)
  from collect_tree_nodes_Inr_evaluate [OF "1.prems"]
  obtain s where ev: "evaluate board = Inr s" ..
  show ?case
  proof (cases "depth = MAX_DEPTH \<or> s \<noteq> 0")
    case True
    from collect_tree_nodes_terminal [OF ev True, of path node_type] "1.prems"
    have "terminal_count nm = 1" by (auto simp: terminal_count_def)
    with collect_alphabeta_tree_nodes_terminal [OF ev True, of path al be]
    show ?thesis by (simp add: terminal_count_def)
  next
    case False
    show ?thesis
    proof (cases "depth mod 2 = 0")
      case True
      let ?g = "\<lambda>m. case make_move board m 1 of Inl e \<Rightarrow> Inl e
        | Inr child \<Rightarrow> collect_tree_nodes child (depth + 1) (path @ [m]) node_type"
      let ?f = "\<lambda>m alpha beta. case make_move board m 1 of Inl e \<Rightarrow> Inl e
        | Inr child \<Rightarrow> collect_alphabeta_tree_nodes child (depth + 1) (path @ [m]) alpha beta"
      from collect_tree_nodes_max [OF ev False True "1.prems"]
      obtain ms nsm cvsm where ms: "get_valid_moves board depth = Inr ms"
        and loop: "collect_max_loop ?g ms [] NegInf [] = Inr (nsm, x, cvsm)"
        and tm: "terminal_count nm = terminal_count nsm"
        by (auto simp: terminal_count_def)
      have child: "\<forall>m a b cnm ym. m \<in> set ms \<longrightarrow> ?g m = Inr (cnm, ym) \<longrightarrow>
           (\<exists>cn y. ?f m a b = Inr (cn, y) \<and> terminal_count cn \<le> terminal_count cnm \<and>
                    (quiet cn \<longrightarrow> terminal_count cn = terminal_count cnm))"
      proof (intro allI impI)
        fix m a b cnm ym assume m: "m \<in> set ms" and gm: "?g m = Inr (cnm, ym)"
        from gm obtain c where c: "make_move board m 1 = Inr c"
          and cc: "collect_tree_nodes c (depth + 1) (path @ [m]) node_type = Inr (cnm, ym)"
          by (auto split: sum.splits)
        have "\<exists>na v. collect_alphabeta_tree_nodes c (depth + 1) (path @ [m]) a b = Inr (na, v) \<and>
            terminal_count na \<le> terminal_count cnm \<and>
            (quiet na \<longrightarrow> terminal_count na = terminal_count cnm)"
          using refl refl ev False True ms m c cc by (rule "1.IH"(1))
        with c show "\<exists>cn y. ?f m a b = Inr (cn, y) \<and> terminal_count cn \<le> terminal_count cnm \<and>
            (quiet cn \<longrightarrow> terminal_count cn = terminal_count cnm)" by simp
      qed
      from collect_ab_max_loop_fewer [OF loop child, of "[]" NegInf "[]" "[]" False al be]
      obtain more val' cvs' ex' pr' al' be' mm
        where ab0: "collect_ab_max_loop ?f ms [] NegInf [] [] False al be =
            Inr ([] @ more, val', cvs', ex', pr', al', be')"
          and mm: "nsm = [] @ mm"
          and le0: "terminal_count more \<le> terminal_count mm"
          and eq0: "quiet more \<and> \<not> pr' \<longrightarrow> terminal_count more = terminal_count mm"
        by blast
      have ab: "collect_ab_max_loop ?f ms [] NegInf [] [] False al be =
            Inr (more, val', cvs', ex', pr', al', be')" using ab0 by simp
      have le: "terminal_count more \<le> terminal_count nsm" using le0 mm by simp
      have eq: "quiet more \<and> \<not> pr' \<longrightarrow> terminal_count more = terminal_count nsm"
        using eq0 mm by simp
      from collect_alphabeta_tree_nodes_result_max [OF ev False True ms ab] le eq tm
      show ?thesis by (auto simp: terminal_count_def quiet_def)
    next
      case odd: False
      let ?g = "\<lambda>m. case make_move board m (- 1) of Inl e \<Rightarrow> Inl e
        | Inr child \<Rightarrow> collect_tree_nodes child (depth + 1) (path @ [m]) node_type"
      let ?f = "\<lambda>m alpha beta. case make_move board m (- 1) of Inl e \<Rightarrow> Inl e
        | Inr child \<Rightarrow> collect_alphabeta_tree_nodes child (depth + 1) (path @ [m]) alpha beta"
      from collect_tree_nodes_min [OF ev False odd "1.prems"]
      obtain ms nsm cvsm where ms: "get_valid_moves board depth = Inr ms"
        and loop: "collect_min_loop ?g ms [] PosInf [] = Inr (nsm, x, cvsm)"
        and tm: "terminal_count nm = terminal_count nsm"
        by (auto simp: terminal_count_def)
      have child: "\<forall>m a b cnm ym. m \<in> set ms \<longrightarrow> ?g m = Inr (cnm, ym) \<longrightarrow>
           (\<exists>cn y. ?f m a b = Inr (cn, y) \<and> terminal_count cn \<le> terminal_count cnm \<and>
                    (quiet cn \<longrightarrow> terminal_count cn = terminal_count cnm))"
      proof (intro allI impI)
        fix m a b cnm ym assume m: "m \<in> set ms" and gm: "?g m = Inr (cnm, ym)"
        from gm obtain c where c: "make_move board m (- 1) = Inr c"
          and cc: "collect_tree_nodes c (depth + 1) (path @ [m]) node_type = Inr (cnm, ym)"
          by (auto split: sum.splits)
        have "\<exists>na v. collect_alphabeta_tree_nodes c (depth + 1) (path @ [m]) a b = Inr (na, v) \<and>
            terminal_count na \<le> terminal_count cnm \<and>
            (quiet na \<longrightarrow> terminal_count na = terminal_count cnm)"
          using refl refl ev False odd ms m c cc by (rule "1.IH"(2))
        with c show "\<exists>cn y. ?f m a b = Inr (cn, y) \<and> terminal_count cn \<le> terminal_count cnm \<and>
            (quiet cn \<longrightarrow> terminal_count cn = terminal_count cnm)" by simp
      qed
      from collect_ab_min_loop_fewer [OF loop child, of "[]" PosInf "[]" "[]" False al be]
      obtain more val' cvs' ex' pr' al' be' mm
        where ab0: "collect_ab_min_loop ?f ms [] PosInf [] [] False al be =
            Inr ([] @ more, val', cvs', ex', pr', al', be')"
          and mm: "nsm = [] @ mm"
          and le0: "terminal_count more \<le> terminal_count mm"
          and eq0: "quiet more \<and> \<not> pr' \<longrightarrow> terminal_count more = terminal_count mm"
        by blast
      have ab: "collect_ab_min_loop ?f ms [] PosInf [] [] False al be =
            Inr (more, val', cvs', ex', pr', al', be')" using ab0 by simp
      have le: "terminal_count more \<le> terminal_count nsm" using le0 mm by simp
      have eq: "quiet more \<and> \<not> pr' \<longrightarrow> terminal_count more = terminal_count nsm"
        using eq0 mm by simp
      from collect_alphabeta_tree_nodes_result_min [OF ev False odd ms ab] le eq tm
      show ?thesis by (auto simp: terminal_count_def quiet_def)
    qed
  qed
qed

lemma collect_tree_nodes_total:
  "wf_board b \<Longrightarrow> \<exists>nm x. collect_tree_nodes b d p nt = Inr (nm, x)"
  using minimax_total [of b d p] minimax_collect [of b d p _ nt] by blast

lemma window_ok_pruned:
  assumes "window_ok n" "n_pruned n = Some True"
  shows "\<exists>a b. n_alpha n = Some a \<and> n_beta n = Some b \<and> b \<le> a"
  using assms
  by (cases "n_alpha n"; cases "n_beta n"; cases "n_type n"; cases "n_moves n";
      cases "n_explored_moves n"; cases "n_children_values n")
     (simp_all add: window_ok_def)

lemma open_windows_quiet:
  assumes "al < be" "collect_alphabeta_tree_nodes b d p al be = Inr (na, v)"
    and "\<forall>n \<in> set na. \<forall>a b. n_alpha n = Some a \<longrightarrow> n_beta n = Some b \<longrightarrow> a < b"
  shows "quiet na"
  unfolding quiet_def
proof
  fix n assume n: "n \<in> set na"
  from collect_alphabeta_tree_nodes_inv [OF assms(1,2)] n have w: "window_ok n" by simp
  show "n_pruned n \<noteq> Some True"
  proof
    assume p: "n_pruned n = Some True"
    from window_ok_pruned [OF w p]
    obtain a b where ab: "n_alpha n = Some a" "n_beta n = Some b" "b \<le> a" by blast
    from assms(3) n ab(1,2) have "a < b" by blast
    with ab(3) show False by simp
  qed
qed

text \<open>
  C2, as the code has it. On every board and depth where the collecting Minimax search
  returns (it does on every well-formed board), the collecting Alpha-Beta search with the
  full window returns too and records at most as many terminal nodes; the two counts are
  equal whenever no record of the Alpha-Beta traversal has a window with \<open>alpha \<ge> beta\<close>.
  The converse does not hold: a cutoff found after the last legal move skips nothing.
\<close>

theorem alphabeta_fewer_terminal_nodes:
  "(wf_board board \<longrightarrow>
      (\<exists>nm x. collect_tree_nodes board depth path node_type = Inr (nm, x))) \<and>
   (\<forall>nm x. collect_tree_nodes board depth path node_type = Inr (nm, x) \<longrightarrow>
      (\<exists>na v. collect_alphabeta_tree_nodes board depth path NegInf PosInf = Inr (na, v) \<and>
         terminal_count na \<le> terminal_count nm \<and>
         ((\<forall>n \<in> set na. \<forall>a b. n_alpha n = Some a \<longrightarrow> n_beta n = Some b \<longrightarrow> a < b) \<longrightarrow>
            terminal_count na = terminal_count nm)))"
proof (intro conjI allI impI)
  assume "wf_board board"
  then show "\<exists>nm x. collect_tree_nodes board depth path node_type = Inr (nm, x)"
    by (rule collect_tree_nodes_total)
next
  fix nm x assume "collect_tree_nodes board depth path node_type = Inr (nm, x)"
  from alphabeta_fewer_terminals [OF this, of NegInf PosInf]
  obtain na v
    where r: "collect_alphabeta_tree_nodes board depth path NegInf PosInf = Inr (na, v)"
      "terminal_count na \<le> terminal_count nm"
      "quiet na \<longrightarrow> terminal_count na = terminal_count nm" by blast
  have "NegInf < PosInf" by simp
  from open_windows_quiet [OF this r(1)] r(3)
  have "(\<forall>n \<in> set na. \<forall>a b. n_alpha n = Some a \<longrightarrow> n_beta n = Some b \<longrightarrow> a < b) \<longrightarrow>
      terminal_count na = terminal_count nm" by blast
  with r(1,2)
  show "\<exists>na v. collect_alphabeta_tree_nodes board depth path NegInf PosInf = Inr (na, v) \<and>
         terminal_count na \<le> terminal_count nm \<and>
         ((\<forall>n \<in> set na. \<forall>a b. n_alpha n = Some a \<longrightarrow> n_beta n = Some b \<longrightarrow> a < b) \<longrightarrow>
            terminal_count na = terminal_count nm)" by blast
qed

theorem alphabeta_fewer_terminal_nodes_witness:
  "\<exists>nm x na v. collect_tree_nodes create_initial_board 0 [] ''minimax'' = Inr (nm, x) \<and>
     terminal_count nm = 19 \<and>
     collect_alphabeta_tree_nodes create_initial_board 0 [] NegInf PosInf = Inr (na, v) \<and>
     terminal_count na \<le> 19"
proof -
  have "case collect_tree_nodes create_initial_board 0 [] ''minimax'' of
      Inl e \<Rightarrow> False | Inr (nm, x) \<Rightarrow> terminal_count nm = 19"
    by code_simp
  then obtain nm x
    where r: "collect_tree_nodes create_initial_board 0 [] ''minimax'' = Inr (nm, x)"
      "terminal_count nm = 19" by (auto split: sum.splits)
  from alphabeta_fewer_terminal_nodes [of create_initial_board 0 "[]" "''minimax''"] r
  show ?thesis by fastforce
qed

text \<open>
  From the initial board at depth 1, both searches record nine terminal nodes, and the
  Alpha-Beta record of the node reached by column 1 ends with the window (100, 100) and
  its \<^verbatim>\<open>pruned\<close> flag set: the cutoff came after the last of its three moves.
\<close>

theorem alphabeta_fewer_terminal_nodes_counterexample:
  "terminal_count (fst (projr (collect_alphabeta_tree_nodes create_initial_board 1 [2]
      NegInf PosInf))) = 9 \<and>
   terminal_count (fst (projr (collect_tree_nodes create_initial_board 1 [2] ''minimax''))) = 9 \<and>
   n_path (fst (projr (collect_alphabeta_tree_nodes create_initial_board 1 [2]
      NegInf PosInf)) ! 7) = [2, 1] \<and>
   n_alpha (fst (projr (collect_alphabeta_tree_nodes create_initial_board 1 [2]
      NegInf PosInf)) ! 7) = Some (Fin 100) \<and>
   n_beta (fst (projr (collect_alphabeta_tree_nodes create_initial_board 1 [2]
      NegInf PosInf)) ! 7) = Some (Fin 100) \<and>
   n_pruned (fst (projr (collect_alphabeta_tree_nodes create_initial_board 1 [2]
      NegInf PosInf)) ! 7) = Some True \<and>
   n_explored_moves (fst (projr (collect_alphabeta_tree_nodes create_initial_board 1 [2]
      NegInf PosInf)) ! 7) = Some [0, 1, 2]"
  by code_simp

section \<open>The windows of the Alpha-Beta calls\<close>

text \<open>
  \<open>alphabeta\<close> once more, now with the part of its console output that shows the windows:
  an event for the entry of every call, with the path of the node and the window it was
  given (the source prints the board of every node on entry), and an event for every
  line \<^verbatim>\<open>After child m, ... sees value, alpha, beta\<close>, which a node prints after each child
  with its updated window. The returned value is that of \<open>alphabeta\<close>.
\<close>

datatype event = Node "int list" score score | AfterChild "int list" int score score

fun log_max_loop ::
  "(int \<Rightarrow> score \<Rightarrow> score \<Rightarrow> error + event list \<times> score) \<Rightarrow> int list \<Rightarrow> int list \<Rightarrow>
   event list \<Rightarrow> score \<Rightarrow> score \<Rightarrow> score \<Rightarrow> error + event list \<times> score" where
  "log_max_loop child path [] log value alpha beta = Inr (log, value)"
| "log_max_loop child path (m # moves) log value alpha beta =
     (case child m alpha beta of Inl e \<Rightarrow> Inl e
      | Inr (child_log, val) \<Rightarrow>
          let value = (if val > value then val else value);
              alpha = (if value > alpha then value else alpha);
              log = log @ child_log @ [AfterChild path m alpha beta]
          in if alpha \<ge> beta then Inr (log, value)
             else log_max_loop child path moves log value alpha beta)"

fun log_min_loop ::
  "(int \<Rightarrow> score \<Rightarrow> score \<Rightarrow> error + event list \<times> score) \<Rightarrow> int list \<Rightarrow> int list \<Rightarrow>
   event list \<Rightarrow> score \<Rightarrow> score \<Rightarrow> score \<Rightarrow> error + event list \<times> score" where
  "log_min_loop child path [] log value alpha beta = Inr (log, value)"
| "log_min_loop child path (m # moves) log value alpha beta =
     (case child m alpha beta of Inl e \<Rightarrow> Inl e
      | Inr (child_log, val) \<Rightarrow>
          let value = (if val < value then val else value);
              beta = (if value < beta then value else beta);
              log = log @ child_log @ [AfterChild path m alpha beta]
          in if alpha \<ge> beta then Inr (log, value)
             else log_min_loop child path moves log value alpha beta)"

lemma log_max_loop_cong [fundef_cong]:
  "moves = moves' \<Longrightarrow> p = p' \<Longrightarrow> l = l' \<Longrightarrow> v = v' \<Longrightarrow> a = a' \<Longrightarrow> b = b' \<Longrightarrow>
   (\<And>m x y. m \<in> set moves' \<Longrightarrow> f m x y = g m x y) \<Longrightarrow>
   log_max_loop f p moves l v a b = log_max_loop g p' moves' l' v' a' b'"
  by (induction moves' arbitrary: moves l l' v v' a a') (auto split: sum.splits simp: Let_def)

lemma log_min_loop_cong [fundef_cong]:
  "moves = moves' \<Longrightarrow> p = p' \<Longrightarrow> l = l' \<Longrightarrow> v = v' \<Longrightarrow> a = a' \<Longrightarrow> b = b' \<Longrightarrow>
   (\<And>m x y. m \<in> set moves' \<Longrightarrow> f m x y = g m x y) \<Longrightarrow>
   log_min_loop f p moves l v a b = log_min_loop g p' moves' l' v' a' b'"
  by (induction moves' arbitrary: moves l l' v v' b b') (auto split: sum.splits simp: Let_def)


function alphabeta_log ::
  "board \<Rightarrow> nat \<Rightarrow> int list \<Rightarrow> score \<Rightarrow> score \<Rightarrow> error + event list \<times> score" where
  "alphabeta_log board depth path alpha beta =
     (case evaluate board of Inl e \<Rightarrow> Inl e
      | Inr score_win \<Rightarrow>
          if depth = MAX_DEPTH \<or> score_win \<noteq> 0 then Inr ([Node path alpha beta], Fin score_win)
          else if depth mod 2 = 0 then
            (case get_valid_moves board depth of Inl e \<Rightarrow> Inl e
             | Inr moves \<Rightarrow>
                 log_max_loop (\<lambda>m alpha beta. case make_move board m 1 of Inl e \<Rightarrow> Inl e
                                 | Inr child \<Rightarrow> alphabeta_log child (depth + 1) (path @ [m]) alpha beta)
                           path moves [Node path alpha beta] NegInf alpha beta)
          else
            (case get_valid_moves board depth of Inl e \<Rightarrow> Inl e
             | Inr moves \<Rightarrow>
                 log_min_loop (\<lambda>m alpha beta. case make_move board m (- 1) of Inl e \<Rightarrow> Inl e
                                 | Inr child \<Rightarrow> alphabeta_log child (depth + 1) (path @ [m]) alpha beta)
                           path moves [Node path alpha beta] PosInf alpha beta))"
  by pat_completeness auto
termination
  by (relation "measure (\<lambda>(board, depth, path, alpha, beta). empty_cells board)")
     (auto dest: get_valid_moves_empty_top intro: make_move_empty_cells)

declare alphabeta_log.simps [simp del]

text \<open>The value returned beside the trace.\<close>

fun returned :: "error + event list \<times> score \<Rightarrow> error + score" where
  "returned (Inl e) = Inl e"
| "returned (Inr (log, v)) = Inr v"

text \<open>
  No line with a closed window (\<open>alpha \<ge> beta\<close>) is followed by the entry of a call: the
  node that printed it starts no further child.
\<close>

definition starts_node :: "event list \<Rightarrow> bool" where
  "starts_node log = (case log of Node p a b # rest \<Rightarrow> True | _ \<Rightarrow> False)"

fun stops_after_cutoff :: "event list \<Rightarrow> bool" where
  "stops_after_cutoff [] = True"
| "stops_after_cutoff (Node p a b # rest) = stops_after_cutoff rest"
| "stops_after_cutoff (AfterChild p m a b # rest) =
     ((starts_node rest \<longrightarrow> a < b) \<and> stops_after_cutoff rest)"

definition open_calls :: "event list \<Rightarrow> bool" where
  "open_calls log = (\<forall>e \<in> set log. case e of Node p a b \<Rightarrow> a < b | AfterChild p m a b \<Rightarrow> True)"

definition ends_closed :: "event list \<Rightarrow> bool" where
  "ends_closed log =
     (log \<noteq> [] \<and> (case last log of AfterChild p m a b \<Rightarrow> b \<le> a | Node p a b \<Rightarrow> False))"

lemma starts_node_simps [simp]:
  "\<not> starts_node []" "starts_node (Node p a b # rest)" "\<not> starts_node (AfterChild p m a b # rest)"
  by (simp_all add: starts_node_def)

lemma starts_node_append: "starts_node xs \<Longrightarrow> starts_node (xs @ ys)"
  by (auto simp: starts_node_def split: list.splits event.splits)


lemma stops_after_cutoff_append:
  "stops_after_cutoff (xs @ ys) =
   (stops_after_cutoff xs \<and> stops_after_cutoff ys \<and> \<not> (ends_closed xs \<and> starts_node ys))"
proof (induction xs)
  case Nil
  then show ?case by (simp add: ends_closed_def)
next
  case (Cons e xs)
  show ?case
  proof (cases e)
    case (Node p a b)
    show ?thesis
    proof (cases "xs = []")
      case True
      with Node show ?thesis by (simp add: ends_closed_def)
    next
      case False
      with Node Cons.IH show ?thesis by (simp add: ends_closed_def)
    qed
  next
    case (AfterChild p m a b)
    show ?thesis
    proof (cases "xs = []")
      case True
      with AfterChild show ?thesis
        by (auto simp: ends_closed_def not_le)
    next
      case False
      then have "starts_node (xs @ ys) = starts_node xs"
        by (cases xs) (simp_all add: starts_node_def)
      with False AfterChild Cons.IH show ?thesis
        by (auto simp: ends_closed_def)
    qed
  qed
qed



lemma log_max_loop_value:
  assumes "\<forall>m a b. m \<in> set ms \<longrightarrow> returned (f m a b) = g m a b"
  shows "returned (log_max_loop f p ms log val \<alpha> \<beta>) = ab_max_loop g ms val \<alpha> \<beta>"
  using assms
proof (induction ms arbitrary: log val \<alpha>)
  case Nil
  then show ?case by simp
next
  case (Cons m ms)
  from Cons.prems [rule_format, of m \<alpha> \<beta>]
  have fm: "returned (f m \<alpha> \<beta>) = g m \<alpha> \<beta>" by simp
  have rest: "\<forall>m a b. m \<in> set ms \<longrightarrow> returned (f m a b) = g m a b"
    using Cons.prems by simp
  show ?case
  proof (cases "f m \<alpha> \<beta>")
    case (Inl e)
    with fm have "g m \<alpha> \<beta> = Inl e" by simp
    with Inl show ?thesis by simp
  next
    case (Inr r)
    obtain cl y where r: "r = (cl, y)" by (cases r)
    with Inr fm have gm: "g m \<alpha> \<beta> = Inr y" by simp
    let ?val = "(if y > val then y else val)"
    let ?\<alpha> = "(if ?val > \<alpha> then ?val else \<alpha>)"
    show ?thesis
    proof (cases "?\<alpha> \<ge> \<beta>")
      case True
      with Inr r gm show ?thesis by (simp add: Let_def)
    next
      case False
      with Inr r gm Cons.IH [OF rest, of "log @ cl @ [AfterChild p m ?\<alpha> \<beta>]" ?val ?\<alpha>]
      show ?thesis by (simp add: Let_def)
    qed
  qed
qed

lemma log_max_loop_ok:
  assumes "log_max_loop f p ms log val \<alpha> \<beta> = Inr (log', v)"
    and "\<forall>m a cl y. m \<in> set ms \<longrightarrow> a < \<beta> \<longrightarrow> f m a \<beta> = Inr (cl, y) \<longrightarrow>
           open_calls cl \<and> stops_after_cutoff cl"
    and "\<alpha> < \<beta>" and "open_calls log" and "stops_after_cutoff log" and "\<not> ends_closed log"
    and "starts_node log"
  shows "open_calls log' \<and> stops_after_cutoff log' \<and> starts_node log'"
  using assms
proof (induction ms arbitrary: log val \<alpha>)
  case Nil
  then show ?case by simp
next
  case (Cons m ms)
  from Cons.prems(1) obtain cl y where fm: "f m \<alpha> \<beta> = Inr (cl, y)"
    by (auto split: sum.splits)
  from Cons.prems(2) [rule_format, of m \<alpha> cl y] fm Cons.prems(3)
  have c: "open_calls cl" "stops_after_cutoff cl" by simp_all
  let ?val = "(if y > val then y else val)"
  let ?\<alpha> = "(if ?val > \<alpha> then ?val else \<alpha>)"
  let ?log = "log @ cl @ [AfterChild p m ?\<alpha> \<beta>]"
  have o: "open_calls ?log" using Cons.prems(4) c(1) by (auto simp: open_calls_def)
  have s: "stops_after_cutoff ?log"
    using Cons.prems(5,6) c(2) by (simp add: stops_after_cutoff_append)
  have n: "starts_node ?log" using Cons.prems(7) by (rule starts_node_append)
  from Cons.prems(1) fm
  have unf: "(if ?\<alpha> \<ge> \<beta> then Inr (?log, ?val)
              else log_max_loop f p ms ?log ?val ?\<alpha> \<beta>) = Inr (log', v)"
    by (simp add: Let_def)
  show ?case
  proof (cases "?\<alpha> \<ge> \<beta>")
    case True
    from unf [unfolded if_P [OF True]] have "?log = log'" by blast
    then have "log' = ?log" by (rule sym)
    with o s n show ?thesis by simp
  next
    case False
    note rest = unf [unfolded if_not_P [OF False]]
    from False have w: "?\<alpha> < \<beta>" by (simp only: not_le)
    then have e: "\<not> ends_closed ?log" by (simp add: ends_closed_def not_le)
    have child: "\<forall>m a cl y. m \<in> set ms \<longrightarrow> a < \<beta> \<longrightarrow> f m a \<beta> = Inr (cl, y) \<longrightarrow>
           open_calls cl \<and> stops_after_cutoff cl"
      using Cons.prems(2) by simp
    from rest child w o s e n show ?thesis by (rule Cons.IH)
  qed
qed

lemma log_min_loop_value:
  assumes "\<forall>m a b. m \<in> set ms \<longrightarrow> returned (f m a b) = g m a b"
  shows "returned (log_min_loop f p ms log val \<alpha> \<beta>) = ab_min_loop g ms val \<alpha> \<beta>"
  using assms
proof (induction ms arbitrary: log val \<beta>)
  case Nil
  then show ?case by simp
next
  case (Cons m ms)
  from Cons.prems [rule_format, of m \<alpha> \<beta>]
  have fm: "returned (f m \<alpha> \<beta>) = g m \<alpha> \<beta>" by simp
  have rest: "\<forall>m a b. m \<in> set ms \<longrightarrow> returned (f m a b) = g m a b"
    using Cons.prems by simp
  show ?case
  proof (cases "f m \<alpha> \<beta>")
    case (Inl e)
    with fm have "g m \<alpha> \<beta> = Inl e" by simp
    with Inl show ?thesis by simp
  next
    case (Inr r)
    obtain cl y where r: "r = (cl, y)" by (cases r)
    with Inr fm have gm: "g m \<alpha> \<beta> = Inr y" by simp
    let ?val = "(if y < val then y else val)"
    let ?\<beta> = "(if ?val < \<beta> then ?val else \<beta>)"
    show ?thesis
    proof (cases "\<alpha> \<ge> ?\<beta>")
      case True
      with Inr r gm show ?thesis by (simp add: Let_def)
    next
      case False
      with Inr r gm Cons.IH [OF rest, of "log @ cl @ [AfterChild p m \<alpha> ?\<beta>]" ?val ?\<beta>]
      show ?thesis by (simp add: Let_def)
    qed
  qed
qed

lemma log_min_loop_ok:
  assumes "log_min_loop f p ms log val \<alpha> \<beta> = Inr (log', v)"
    and "\<forall>m b cl y. m \<in> set ms \<longrightarrow> \<alpha> < b \<longrightarrow> f m \<alpha> b = Inr (cl, y) \<longrightarrow>
           open_calls cl \<and> stops_after_cutoff cl"
    and "\<alpha> < \<beta>" and "open_calls log" and "stops_after_cutoff log" and "\<not> ends_closed log"
    and "starts_node log"
  shows "open_calls log' \<and> stops_after_cutoff log' \<and> starts_node log'"
  using assms
proof (induction ms arbitrary: log val \<beta>)
  case Nil
  then show ?case by simp
next
  case (Cons m ms)
  from Cons.prems(1) obtain cl y where fm: "f m \<alpha> \<beta> = Inr (cl, y)"
    by (auto split: sum.splits)
  from Cons.prems(2) [rule_format, of m \<beta> cl y] fm Cons.prems(3)
  have c: "open_calls cl" "stops_after_cutoff cl" by simp_all
  let ?val = "(if y < val then y else val)"
  let ?\<beta> = "(if ?val < \<beta> then ?val else \<beta>)"
  let ?log = "log @ cl @ [AfterChild p m \<alpha> ?\<beta>]"
  have o: "open_calls ?log" using Cons.prems(4) c(1) by (auto simp: open_calls_def)
  have s: "stops_after_cutoff ?log"
    using Cons.prems(5,6) c(2) by (simp add: stops_after_cutoff_append)
  have n: "starts_node ?log" using Cons.prems(7) by (rule starts_node_append)
  from Cons.prems(1) fm
  have unf: "(if \<alpha> \<ge> ?\<beta> then Inr (?log, ?val)
              else log_min_loop f p ms ?log ?val \<alpha> ?\<beta>) = Inr (log', v)"
    by (simp add: Let_def)
  show ?case
  proof (cases "\<alpha> \<ge> ?\<beta>")
    case True
    from unf [unfolded if_P [OF True]] have "?log = log'" by blast
    then have "log' = ?log" by (rule sym)
    with o s n show ?thesis by simp
  next
    case False
    note rest = unf [unfolded if_not_P [OF False]]
    from False have w: "\<alpha> < ?\<beta>" by (simp only: not_le)
    then have e: "\<not> ends_closed ?log" by (simp add: ends_closed_def not_le)
    have child: "\<forall>m b cl y. m \<in> set ms \<longrightarrow> \<alpha> < b \<longrightarrow> f m \<alpha> b = Inr (cl, y) \<longrightarrow>
           open_calls cl \<and> stops_after_cutoff cl"
      using Cons.prems(2) by simp
    from rest child w o s e n show ?thesis by (rule Cons.IH)
  qed
qed


lemma alphabeta_log_terminal:
  "evaluate b = Inr s \<Longrightarrow> d = MAX_DEPTH \<or> s \<noteq> 0 \<Longrightarrow>
   alphabeta_log b d p al be = Inr ([Node p al be], Fin s)"
  by (subst alphabeta_log.simps) auto

lemma alphabeta_log_unfold:
  assumes "evaluate b = Inr s" "\<not> (d = MAX_DEPTH \<or> s \<noteq> 0)" "get_valid_moves b d = Inr ms"
  shows "alphabeta_log b d p al be =
    (if d mod 2 = 0 then
       log_max_loop (\<lambda>m alpha beta. case make_move b m 1 of Inl e \<Rightarrow> Inl e
                       | Inr child \<Rightarrow> alphabeta_log child (d + 1) (p @ [m]) alpha beta)
         p ms [Node p al be] NegInf al be
     else
       log_min_loop (\<lambda>m alpha beta. case make_move b m (- 1) of Inl e \<Rightarrow> Inl e
                       | Inr child \<Rightarrow> alphabeta_log child (d + 1) (p @ [m]) alpha beta)
         p ms [Node p al be] PosInf al be)"
  using assms by (subst alphabeta_log.simps) simp

lemma alphabeta_log_Inr_evaluate:
  "alphabeta_log b d p al be = Inr x \<Longrightarrow> \<exists>s. evaluate b = Inr s"
  by (subst (asm) alphabeta_log.simps) (simp split: sum.splits)

lemma alphabeta_log_Inr_moves:
  "alphabeta_log b d p al be = Inr x \<Longrightarrow> evaluate b = Inr s \<Longrightarrow>
   \<not> (d = MAX_DEPTH \<or> s \<noteq> 0) \<Longrightarrow> \<exists>ms. get_valid_moves b d = Inr ms"
  by (subst (asm) alphabeta_log.simps) (simp split: sum.splits if_splits)

lemma alphabeta_log_value: "returned (alphabeta_log b d p al be) = alphabeta b d p al be"
proof (induction b d p al be rule: alphabeta_log.induct)
  case (1 board depth path alpha beta)
  show ?case
  proof (cases "evaluate board")
    case (Inl e)
    then show ?thesis by (subst alphabeta_log.simps, subst alphabeta.simps) simp
  next
    case (Inr s)
    note ev = Inr
    show ?thesis
    proof (cases "depth = MAX_DEPTH \<or> s \<noteq> 0")
      case True
      from alphabeta_log_terminal [OF ev True, of path alpha beta]
        alphabeta_terminal [OF ev True, of path alpha beta]
      show ?thesis by simp
    next
      case False
      show ?thesis
      proof (cases "get_valid_moves board depth")
        case (Inl e)
        with ev False show ?thesis by (subst alphabeta_log.simps, subst alphabeta.simps) simp
      next
        case (Inr ms)
        note ms = Inr
        note lg = alphabeta_log_unfold [OF ev False ms, of path alpha beta]
        note ab = alphabeta_unfold [OF ev False ms, of path alpha beta]
        show ?thesis
        proof (cases "depth mod 2 = 0")
          case True
          let ?f = "\<lambda>m alpha beta. case make_move board m 1 of Inl e \<Rightarrow> Inl e
                     | Inr child \<Rightarrow> alphabeta_log child (depth + 1) (path @ [m]) alpha beta"
          let ?g = "\<lambda>m alpha beta. case make_move board m 1 of Inl e \<Rightarrow> Inl e
                     | Inr child \<Rightarrow> alphabeta child (depth + 1) (path @ [m]) alpha beta"
          have child: "returned (?f m a b) = ?g m a b" if "m \<in> set ms" for m a b
          proof (cases "make_move board m 1")
            case (Inl e)
            then show ?thesis by simp
          next
            case (Inr c)
            have "returned (alphabeta_log c (depth + 1) (path @ [m]) a b) =
                  alphabeta c (depth + 1) (path @ [m]) a b"
              using ev False True ms that Inr by (rule "1.IH"(1))
            with Inr show ?thesis by simp
          qed
          have "returned (log_max_loop ?f path ms [Node path alpha beta] NegInf alpha beta) =
                ab_max_loop ?g ms NegInf alpha beta"
            by (rule log_max_loop_value) (simp add: child)
          with lg ab True show ?thesis by simp
        next
          case odd: False
          let ?f = "\<lambda>m alpha beta. case make_move board m (- 1) of Inl e \<Rightarrow> Inl e
                     | Inr child \<Rightarrow> alphabeta_log child (depth + 1) (path @ [m]) alpha beta"
          let ?g = "\<lambda>m alpha beta. case make_move board m (- 1) of Inl e \<Rightarrow> Inl e
                     | Inr child \<Rightarrow> alphabeta child (depth + 1) (path @ [m]) alpha beta"
          have child: "returned (?f m a b) = ?g m a b" if "m \<in> set ms" for m a b
          proof (cases "make_move board m (- 1)")
            case (Inl e)
            then show ?thesis by simp
          next
            case (Inr c)
            have "returned (alphabeta_log c (depth + 1) (path @ [m]) a b) =
                  alphabeta c (depth + 1) (path @ [m]) a b"
              using ev False odd ms that Inr by (rule "1.IH"(2))
            with Inr show ?thesis by simp
          qed
          have "returned (log_min_loop ?f path ms [Node path alpha beta] PosInf alpha beta) =
                ab_min_loop ?g ms PosInf alpha beta"
            by (rule log_min_loop_value) (simp add: child)
          with lg ab odd show ?thesis by simp
        qed
      qed
    qed
  qed
qed

lemma alphabeta_log_returns:
  assumes "alphabeta b d p al be = Inr v"
  shows "\<exists>log. alphabeta_log b d p al be = Inr (log, v)"
proof (cases "alphabeta_log b d p al be")
  case (Inl e)
  with alphabeta_log_value [of b d p al be] assms show ?thesis by simp
next
  case (Inr r)
  obtain log y where "r = (log, y)" by (cases r)
  with Inr alphabeta_log_value [of b d p al be] assms show ?thesis by simp
qed

lemma alphabeta_log_ok:
  "al < be \<Longrightarrow> alphabeta_log b d p al be = Inr (log, v) \<Longrightarrow>
   open_calls log \<and> stops_after_cutoff log"
proof (induction b d p al be arbitrary: log v rule: alphabeta_log.induct)
  case (1 board depth path alpha beta)
  from alphabeta_log_Inr_evaluate [OF "1.prems"(2)] obtain s where ev: "evaluate board = Inr s" ..
  show ?case
  proof (cases "depth = MAX_DEPTH \<or> s \<noteq> 0")
    case True
    from alphabeta_log_terminal [OF ev True, of path alpha beta] "1.prems"(2)
    have "log = [Node path alpha beta]" by simp
    with "1.prems"(1) show ?thesis by (simp add: open_calls_def)
  next
    case False
    from alphabeta_log_Inr_moves [OF "1.prems"(2) ev False]
    obtain ms where ms: "get_valid_moves board depth = Inr ms" ..
    note lg = alphabeta_log_unfold [OF ev False ms, of path alpha beta]
    have o: "open_calls [Node path alpha beta]" using "1.prems"(1) by (simp add: open_calls_def)
    have s: "stops_after_cutoff [Node path alpha beta]" by simp
    have e: "\<not> ends_closed [Node path alpha beta]" by (simp add: ends_closed_def)
    have n: "starts_node [Node path alpha beta]" by simp
    show ?thesis
    proof (cases "depth mod 2 = 0")
      case True
      let ?f = "\<lambda>m alpha beta. case make_move board m 1 of Inl e \<Rightarrow> Inl e
                 | Inr child \<Rightarrow> alphabeta_log child (depth + 1) (path @ [m]) alpha beta"
      have loop: "log_max_loop ?f path ms [Node path alpha beta] NegInf alpha beta = Inr (log, v)"
        using lg True "1.prems"(2) by simp
      have child: "open_calls cl \<and> stops_after_cutoff cl"
        if "m \<in> set ms" "a < beta" "?f m a beta = Inr (cl, y)" for m a cl y
      proof -
        from that(3) obtain c where c: "make_move board m 1 = Inr c"
          and y: "alphabeta_log c (depth + 1) (path @ [m]) a beta = Inr (cl, y)"
          by (auto split: sum.splits)
        show ?thesis using ev False True ms that(1) c that(2) y by (rule "1.IH"(1))
      qed
      then have child': "\<forall>m a cl y. m \<in> set ms \<longrightarrow> a < beta \<longrightarrow> ?f m a beta = Inr (cl, y) \<longrightarrow>
          open_calls cl \<and> stops_after_cutoff cl"
        by blast
      from log_max_loop_ok [OF loop child' "1.prems"(1) o s e n] show ?thesis by simp
    next
      case odd: False
      let ?f = "\<lambda>m alpha beta. case make_move board m (- 1) of Inl e \<Rightarrow> Inl e
                 | Inr child \<Rightarrow> alphabeta_log child (depth + 1) (path @ [m]) alpha beta"
      have loop: "log_min_loop ?f path ms [Node path alpha beta] PosInf alpha beta = Inr (log, v)"
        using lg odd "1.prems"(2) by simp
      have child: "open_calls cl \<and> stops_after_cutoff cl"
        if "m \<in> set ms" "alpha < b" "?f m alpha b = Inr (cl, y)" for m b cl y
      proof -
        from that(3) obtain c where c: "make_move board m (- 1) = Inr c"
          and y: "alphabeta_log c (depth + 1) (path @ [m]) alpha b = Inr (cl, y)"
          by (auto split: sum.splits)
        show ?thesis using ev False odd ms that(1) c that(2) y by (rule "1.IH"(2))
      qed
      then have child': "\<forall>m b cl y. m \<in> set ms \<longrightarrow> alpha < b \<longrightarrow> ?f m alpha b = Inr (cl, y) \<longrightarrow>
          open_calls cl \<and> stops_after_cutoff cl"
        by blast
      from log_min_loop_ok [OF loop child' "1.prems"(1) o s e n] show ?thesis by simp
    qed
  qed
qed



text \<open>
  C5. Whenever \<open>alphabeta\<close> returns from a call with \<open>alpha < beta\<close> (the root call with the
  window \<open>(-\<infinity>, +\<infinity>)\<close> is one), the traced search returns the same value, and in its trace
  every call, at any depth below, was entered with \<open>alpha < beta\<close>, and no line whose window
  has \<open>alpha \<ge> beta\<close> is followed by the entry of a call: the node that sees the cutoff
  returns without starting another child, so a closed window only ever exists at that
  instant. The collecting search returns the same value too, and each of its records
  agrees: a terminal record holds the open window it was called with, and a MAX or MIN
  record holds its final window, has its \<^verbatim>\<open>pruned\<close> flag set exactly when that window has
  \<open>alpha \<ge> beta\<close>, and lists as explored a prefix of its moves that is the whole list
  unless the flag is set.
\<close>

theorem window_validity:
  assumes "alpha < beta" and "alphabeta board depth path alpha beta = Inr v"
  shows "(\<exists>log. alphabeta_log board depth path alpha beta = Inr (log, v) \<and>
            open_calls log \<and> stops_after_cutoff log) \<and>
         (\<exists>nodes. collect_alphabeta_tree_nodes board depth path alpha beta = Inr (nodes, v) \<and>
            (\<forall>n \<in> set nodes. window_ok n))"
proof
  from alphabeta_log_returns [OF assms(2)]
  obtain log where l: "alphabeta_log board depth path alpha beta = Inr (log, v)" ..
  from alphabeta_log_ok [OF assms(1) l] l
  show "\<exists>log. alphabeta_log board depth path alpha beta = Inr (log, v) \<and>
          open_calls log \<and> stops_after_cutoff log" by blast
next
  from alphabeta_collect [OF assms(2)]
  obtain nodes where c: "collect_alphabeta_tree_nodes board depth path alpha beta = Inr (nodes, v)" ..
  from collect_alphabeta_tree_nodes_inv [OF assms(1) c] c
  show "\<exists>nodes. collect_alphabeta_tree_nodes board depth path alpha beta = Inr (nodes, v) \<and>
          (\<forall>n \<in> set nodes. window_ok n)" by blast
qed

text \<open>
  The search from the initial board returns 100. In its trace the node on the path
  \<open>[0, 1]\<close> sees the window \<open>(100, 100)\<close> after its first child and starts no other.
\<close>

theorem window_validity_witness:
  "\<exists>log. alphabeta_log create_initial_board 0 [] NegInf PosInf = Inr (log, Fin 100) \<and>
     open_calls log \<and> stops_after_cutoff log \<and>
     AfterChild [0, 1] 0 (Fin 100) (Fin 100) \<in> set log"
proof -
  have "case alphabeta_log create_initial_board 0 [] NegInf PosInf of
      Inl e \<Rightarrow> False
    | Inr (log, v) \<Rightarrow> AfterChild [0, 1] 0 (Fin 100) (Fin 100) \<in> set log"
    by code_simp
  then obtain log v
    where r: "alphabeta_log create_initial_board 0 [] NegInf PosInf = Inr (log, v)"
      "AfterChild [0, 1] 0 (Fin 100) (Fin 100) \<in> set log"
    by (auto split: sum.splits)
  have "NegInf < PosInf" by simp
  from window_validity [OF this alphabeta_initial] r show ?thesis by auto
qed

end
